theory Spec2Isabelle
  imports Main "HOL-Library.Word" "HOL-Library.Multiset"
begin

section \<open>Data model\<close>

text \<open>
  The service keeps a queue of messages in one table.  A message exists in two
  shapes with the same six fields: the domain entity of \<^verbatim>\<open>service/message/domain.go\<close>
  and the persistence record of \<^verbatim>\<open>env/postgres/messages\<close>.  Go's \<^verbatim>\<open>int64\<close> and
  \<^verbatim>\<open>int\<close> are 64-bit words, a \<^verbatim>\<open>string\<close> is a list of bytes, a \<^verbatim>\<open>time.Time\<close> is an
  instant counted from the zero time, and a nullable pointer field is an option.
\<close>

type_synonym int64 = "64 word"
type_synonym go_int = "64 word"
type_synonym time = int

definition IsZero :: "time \<Rightarrow> bool" where
  "IsZero t = (t = 0)"

record Message =
  ID :: int64
  PhoneNumber :: string
  Content :: string
  CreatedAt :: time
  MessageID :: "string option"
  ProcessedAt :: "time option"

record PgMessage =
  pg_ID :: int64
  pg_PhoneNumber :: string
  pg_Content :: string
  pg_CreatedAt :: time
  pg_MessageID :: "string option"
  pg_ProcessedAt :: "time option"

definition MaxContentLength :: nat where
  "MaxContentLength = 500"

section \<open>Regular expressions\<close>

text \<open>
  The fragment of Go's regular expressions that \<^verbatim>\<open>phoneRegex\<close> uses: a literal byte,
  a byte range, an optional item, a bounded repetition and concatenation.
  \<open>residuals r s\<close> lists what is left of \<open>s\<close> after each way of matching \<open>r\<close> at
  its front, the preferred (greedy) way first.
\<close>

datatype regex =
    Lit char
  | Range char char
  | Opt regex
  | Repeat regex nat nat
  | Seq regex regex

definition in_range :: "char \<Rightarrow> char \<Rightarrow> char \<Rightarrow> bool" where
  "in_range lo hi c = ((of_char lo :: nat) \<le> of_char c \<and> (of_char c :: nat) \<le> of_char hi)"

definition class_step :: "(char \<Rightarrow> bool) \<Rightarrow> string \<Rightarrow> string list" where
  "class_step P s = (case s of [] \<Rightarrow> [] | x # xs \<Rightarrow> if P x then [xs] else [])"

fun rep :: "(string \<Rightarrow> string list) \<Rightarrow> nat \<Rightarrow> nat \<Rightarrow> string \<Rightarrow> string list" where
  "rep f 0 0 s = [s]"
| "rep f 0 (Suc n) s = concat (map (rep f 0 n) (f s)) @ [s]"
| "rep f (Suc m) 0 s = []"
| "rep f (Suc m) (Suc n) s = concat (map (rep f m n) (f s))"

primrec residuals :: "regex \<Rightarrow> string \<Rightarrow> string list" where
  "residuals (Lit c) = class_step (\<lambda>x. x = c)"
| "residuals (Range lo hi) = class_step (in_range lo hi)"
| "residuals (Opt r) = (\<lambda>s. residuals r s @ [s])"
| "residuals (Repeat r m n) = rep (residuals r) m n"
| "residuals (Seq r1 r2) = (\<lambda>s. concat (map (residuals r2) (residuals r1 s)))"

text \<open>
  A pattern written between \<^verbatim>\<open>^\<close> and \<^verbatim>\<open>$\<close> (without the multi-line flag) matches
  a string when it matches the whole of it.
\<close>

definition MatchAnchored :: "regex \<Rightarrow> string \<Rightarrow> bool" where
  "MatchAnchored r s = ([] \<in> set (residuals r s))"

text \<open>\<^verbatim>\<open>phoneRegex = regexp.MustCompile(`^\+?[1-9]\d{1,14}$`)\<close>\<close>

definition phoneRegex :: regex where
  "phoneRegex =
     Seq (Opt (Lit (CHR ''+'')))
       (Seq (Range (CHR ''1'') (CHR ''9''))
         (Repeat (Range (CHR ''0'') (CHR ''9'')) 1 14))"

definition phoneRegex_MatchString :: "string \<Rightarrow> bool" where
  "phoneRegex_MatchString s = MatchAnchored phoneRegex s"

section \<open>Validation\<close>

datatype ValidationError =
    PhoneRequired
  | PhoneFormat
  | ContentRequired
  | ContentTooLong

definition Validate :: "Message \<Rightarrow> ValidationError + unit" where
  "Validate m =
     (if PhoneNumber m = [] then Inl PhoneRequired
      else if \<not> phoneRegex_MatchString (PhoneNumber m) then Inl PhoneFormat
      else if Content m = [] then Inl ContentRequired
      else if length (Content m) > MaxContentLength then Inl ContentTooLong
      else Inr ())"

section \<open>Mappers\<close>

definition domainOf :: "PgMessage \<Rightarrow> Message" where
  "domainOf message =
     \<lparr>ID = pg_ID message, PhoneNumber = pg_PhoneNumber message,
      Content = pg_Content message, CreatedAt = pg_CreatedAt message,
      MessageID = pg_MessageID message, ProcessedAt = pg_ProcessedAt message\<rparr>"

definition postgresOf :: "Message \<Rightarrow> PgMessage" where
  "postgresOf domainMsg =
     \<lparr>pg_ID = ID domainMsg, pg_PhoneNumber = PhoneNumber domainMsg,
      pg_Content = Content domainMsg, pg_CreatedAt = CreatedAt domainMsg,
      pg_MessageID = MessageID domainMsg, pg_ProcessedAt = ProcessedAt domainMsg\<rparr>"

text \<open>
  A \<^verbatim>\<open>*Message\<close> argument is an option: \<open>None\<close> is the nil pointer, which both
  mappers return unchanged; otherwise they build the record above.
\<close>

definition ToDomain :: "PgMessage option \<Rightarrow> Message option" where
  "ToDomain message =
     (case message of None \<Rightarrow> None | Some p \<Rightarrow> Some (domainOf p))"

definition ToPostgres :: "Message option \<Rightarrow> PgMessage option" where
  "ToPostgres domainMsg =
     (case domainMsg of None \<Rightarrow> None | Some m \<Rightarrow> Some (postgresOf m))"

text \<open>
  The slices the repository returns hold pointers to records it has just
  allocated, none of them nil, so such a slice is a list of records and
  \<^verbatim>\<open>ToDomainSlice\<close> converts each element.
\<close>

definition ToDomainSlice :: "PgMessage list \<Rightarrow> Message list" where
  "ToDomainSlice dbMessages = map domainOf dbMessages"

section \<open>The store and the delivery transport\<close>

text \<open>
  The errors of the collaborators and of the service.  A query can fail when it is
  sent or while its rows are read; an update can fail in the driver or affect no
  row; the webhook can fail or be cancelled.  The errors of the service are those
  its functions return, each wrapping the error below it.
\<close>

datatype query_fault = QueryOk | QueryFails | ScanFails
datatype exec_fault = ExecOk | ExecFails | ExecNoRow
datatype send_error = Cancelled | TransportFailed
datatype query_error = QueryFailed | ScanFailed
datatype update_error = ExecFailed | NotFound int64

datatype error =
    ValidationFailed ValidationError
  | CreateFailed
  | BeginFailed
  | ClaimFailed query_error
  | CommitFailed
  | SendFailed send_error
  | UpdateStatusFailed update_error

text \<open>
  The world outside the service: the committed table in physical order, the rows
  locked by transactions of other instances, the transaction this instance has
  open (its view of the rows and the locks it holds), the \<^verbatim>\<open>SERIAL\<close> sequence of
  the table, and counters of the webhook calls and clock reads made so far.
  \<open>calls\<close> records every call that leaves the service, in order, and \<open>logged\<close>
  the error lines the dispatch loop writes to the process log, each with the
  identifier of the message it is about.
\<close>

record Tx =
  view :: "PgMessage list"
  held :: "int64 list"

datatype call =
    CallBegin
  | CallQuery go_int
  | CallExec int64
  | CallCommit
  | CallRollback
  | CallSend string string
  | CallInsert string string

record World =
  table :: "PgMessage list"
  others :: "int64 list"
  tx :: "Tx option"
  nextId :: int64
  sends :: nat
  ticks :: nat
  calls :: "call list"
  logged :: "(int64 \<times> error) list"

text \<open>
  What the collaborators answer is fixed by an environment: whether the driver
  fails at each kind of statement (for an update, by the identifier it names),
  what the webhook answers to its \<open>k\<close>-th call and what the clock shows at its
  \<open>k\<close>-th reading.
\<close>

record Env =
  beginFails :: bool
  queryFault :: query_fault
  execFault :: "int64 \<Rightarrow> exec_fault"
  commitFails :: bool
  rollbackFails :: bool
  insertFails :: bool
  webhook :: "nat \<Rightarrow> string \<Rightarrow> string \<Rightarrow> send_error + string"
  now :: "nat \<Rightarrow> time"

definition logCall :: "call \<Rightarrow> World \<Rightarrow> World" where
  "logCall c w = w\<lparr>calls := calls w @ [c]\<rparr>"

definition time_Now :: "Env \<Rightarrow> World \<Rightarrow> time \<times> World" where
  "time_Now env w = (now env (ticks w), w\<lparr>ticks := Suc (ticks w)\<rparr>)"

text \<open>\<^verbatim>\<open>webhook.Client.SendMessage\<close>: a correlation identifier or a failure.\<close>

definition SendMessage :: "Env \<Rightarrow> string \<Rightarrow> string \<Rightarrow> World \<Rightarrow> (send_error + string) \<times> World" where
  "SendMessage env phoneNumber content w =
     (webhook env (sends w) phoneNumber content,
      logCall (CallSend phoneNumber content) (w\<lparr>sends := Suc (sends w)\<rparr>))"

text \<open>
  \<^verbatim>\<open>postgres.Client.BeginTx\<close>, \<^verbatim>\<open>tx.Commit\<close> and \<^verbatim>\<open>tx.Rollback\<close>.  A transaction starts
  from the committed rows; commit publishes its view, rollback and a failed commit
  discard it; each of the three ends the locks the transaction holds.
\<close>

definition BeginTx :: "Env \<Rightarrow> World \<Rightarrow> (unit + unit) \<times> World" where
  "BeginTx env w =
     (if beginFails env then (Inl (), logCall CallBegin w)
      else (Inr (), logCall CallBegin (w\<lparr>tx := Some \<lparr>view = table w, held = []\<rparr>\<rparr>)))"

definition Commit :: "Env \<Rightarrow> World \<Rightarrow> (unit + unit) \<times> World" where
  "Commit env w =
     (case tx w of
        None \<Rightarrow> (Inl (), logCall CallCommit w)
      | Some t \<Rightarrow>
          if commitFails env then (Inl (), logCall CallCommit (w\<lparr>tx := None\<rparr>))
          else (Inr (), logCall CallCommit (w\<lparr>table := view t, tx := None\<rparr>)))"

definition Rollback :: "Env \<Rightarrow> World \<Rightarrow> (unit + unit) \<times> World" where
  "Rollback env w =
     (if rollbackFails env \<or> tx w = None then Inl () else Inr (),
      logCall CallRollback (w\<lparr>tx := None\<rparr>))"

section \<open>Repository\<close>

text \<open>
  The statement of \<^verbatim>\<open>ListAndLockUnsent\<close>:
  \<^verbatim>\<open>SELECT ... FROM messages WHERE processed_at IS NULL ORDER BY created_at ASC
  LIMIT $1 FOR UPDATE SKIP LOCKED\<close>.
  Rows locked by another transaction are passed over, the rest are ordered by
  creation time (rows created at the same instant stay in physical order), a
  negative limit is refused by the server, and the rows returned are locked.
\<close>

definition claimable :: "World \<Rightarrow> PgMessage list \<Rightarrow> PgMessage list" where
  "claimable w rows =
     sort_key pg_CreatedAt
       (filter (\<lambda>r. pg_ProcessedAt r = None \<and> pg_ID r \<notin> set (others w)) rows)"

definition tx_Query :: "Env \<Rightarrow> go_int \<Rightarrow> World \<Rightarrow> (unit + PgMessage list) \<times> World" where
  "tx_Query env limit w =
     (case tx w of
        None \<Rightarrow> (Inl (), logCall (CallQuery limit) w)
      | Some t \<Rightarrow>
          if queryFault env = QueryFails \<or> sint limit < 0
          then (Inl (), logCall (CallQuery limit) w)
          else
            let rows = take (nat (sint limit)) (claimable w (view t))
            in (Inr rows,
                logCall (CallQuery limit)
                  (w\<lparr>tx := Some (t\<lparr>held := held t @ map pg_ID rows\<rparr>)\<rparr>)))"

definition ListAndLockUnsent ::
  "Env \<Rightarrow> go_int \<Rightarrow> World \<Rightarrow> (query_error + PgMessage list) \<times> World" where
  "ListAndLockUnsent env limit w =
     (case tx_Query env limit w of
        (Inl _, w') \<Rightarrow> (Inl QueryFailed, w')
      | (Inr rows, w') \<Rightarrow>
          if queryFault env = ScanFails then (Inl ScanFailed, w')
          else (Inr rows, w'))"

text \<open>
  The statement of \<^verbatim>\<open>UpdateWithTx\<close>:
  \<^verbatim>\<open>UPDATE messages SET message_id = $1, processed_at = $2 WHERE id = $3\<close>;
  \<open>tx_Exec\<close> answers with the number of rows affected.
\<close>

definition tx_Exec ::
  "Env \<Rightarrow> string option \<Rightarrow> time option \<Rightarrow> int64 \<Rightarrow> World \<Rightarrow> (unit + nat) \<times> World" where
  "tx_Exec env messageID processedAt rowId w =
     (case tx w of
        None \<Rightarrow> (Inl (), logCall (CallExec rowId) w)
      | Some t \<Rightarrow>
          (case execFault env rowId of
             ExecFails \<Rightarrow> (Inl (), logCall (CallExec rowId) w)
           | ExecNoRow \<Rightarrow> (Inr 0, logCall (CallExec rowId) w)
           | ExecOk \<Rightarrow>
               (Inr (length (filter (\<lambda>r. pg_ID r = rowId) (view t))),
                logCall (CallExec rowId)
                  (w\<lparr>tx := Some (t\<lparr>view :=
                         map (\<lambda>r. if pg_ID r = rowId
                                   then r\<lparr>pg_MessageID := messageID, pg_ProcessedAt := processedAt\<rparr>
                                   else r) (view t)\<rparr>)\<rparr>))))"

definition UpdateWithTx ::
  "Env \<Rightarrow> int64 \<Rightarrow> string option \<Rightarrow> time option \<Rightarrow> World \<Rightarrow> (update_error + unit) \<times> World" where
  "UpdateWithTx env rowId messageID processedAt w =
     (case tx_Exec env messageID processedAt rowId w of
        (Inl _, w') \<Rightarrow> (Inl ExecFailed, w')
      | (Inr rowsAffected, w') \<Rightarrow>
          if rowsAffected = 0 then (Inl (NotFound rowId), w') else (Inr (), w'))"

text \<open>
  \<^verbatim>\<open>Create\<close>: \<^verbatim>\<open>INSERT INTO messages (phone_number, content, created_at) VALUES
  ($1, $2, $3) RETURNING id\<close>, run on the pool outside any transaction.  It
  returns the record with its identifier filled in.
\<close>

definition Create :: "Env \<Rightarrow> PgMessage \<Rightarrow> World \<Rightarrow> (unit + PgMessage) \<times> World" where
  "Create env msg w =
     (let (msg1, w1) =
            (if IsZero (pg_CreatedAt msg)
             then (let (t, w') = time_Now env w in (msg\<lparr>pg_CreatedAt := t\<rparr>, w'))
             else (msg, w));
          w2 = logCall (CallInsert (pg_PhoneNumber msg1) (pg_Content msg1)) w1
      in if insertFails env then (Inl (), w2)
         else
           let row = \<lparr>pg_ID = nextId w2, pg_PhoneNumber = pg_PhoneNumber msg1,
                      pg_Content = pg_Content msg1, pg_CreatedAt = pg_CreatedAt msg1,
                      pg_MessageID = None, pg_ProcessedAt = None\<rparr>
           in (Inr (msg1\<lparr>pg_ID := nextId w2\<rparr>),
               w2\<lparr>table := table w2 @ [row], nextId := nextId w2 + 1\<rparr>))"

section \<open>Service\<close>

definition CreateMessage ::
  "Env \<Rightarrow> string \<Rightarrow> string \<Rightarrow> World \<Rightarrow> (error + Message) \<times> World" where
  "CreateMessage env phoneNumber content w =
     (let (t, w1) = time_Now env w;
          msg = \<lparr>ID = 0, PhoneNumber = phoneNumber, Content = content, CreatedAt = t,
                 MessageID = None, ProcessedAt = None\<rparr>
      in (case Validate msg of
            Inl e \<Rightarrow> (Inl (ValidationFailed e), w1)
          | Inr _ \<Rightarrow>
              (case Create env (postgresOf msg) w1 of
                 (Inl _, w2) \<Rightarrow> (Inl CreateFailed, w2)
               | (Inr dbMsg, w2) \<Rightarrow> (Inr (msg\<lparr>ID := pg_ID dbMsg\<rparr>), w2))))"

definition sendMessageWithTx :: "Env \<Rightarrow> Message \<Rightarrow> World \<Rightarrow> (error + unit) \<times> World" where
  "sendMessageWithTx env msg w =
     (case SendMessage env (PhoneNumber msg) (Content msg) w of
        (Inl e, w1) \<Rightarrow> (Inl (SendFailed e), w1)
      | (Inr messageID, w1) \<Rightarrow>
          let (sentAt, w2) = time_Now env w1
          in (case UpdateWithTx env (ID msg) (Some messageID) (Some sentAt) w2 of
                (Inl e, w3) \<Rightarrow> (Inl (UpdateStatusFailed e), w3)
              | (Inr _, w3) \<Rightarrow> (Inr (), w3)))"

text \<open>
  The loop of \<^verbatim>\<open>ProcessUnsentMessages\<close> over the claimed messages: an error of
  \<^verbatim>\<open>sendMessageWithTx\<close> is written to the process log and the loop goes on.
\<close>

definition sendOrLog :: "Env \<Rightarrow> Message \<Rightarrow> World \<Rightarrow> World" where
  "sendOrLog env msg w =
     (case sendMessageWithTx env msg w of
        (Inl sendErr, w') \<Rightarrow> w'\<lparr>logged := logged w' @ [(ID msg, sendErr)]\<rparr>
      | (Inr _, w') \<Rightarrow> w')"

fun sendEach :: "Env \<Rightarrow> Message list \<Rightarrow> World \<Rightarrow> World" where
  "sendEach env [] w = w"
| "sendEach env (msg # rest) w = sendEach env rest (sendOrLog env msg w)"

text \<open>
  \<^verbatim>\<open>ProcessUnsentMessages\<close> runs under the mutex of the service, so the cycles of one
  instance follow one another; one cycle is a function of the world.
  The function defers a rollback that runs when the variable \<^verbatim>\<open>err\<close> of the function
  body is set at return.  \<^verbatim>\<open>err\<close> is assigned by \<^verbatim>\<open>BeginTx\<close> and by
  \<^verbatim>\<open>ListAndLockUnsent\<close>; the two commit statements declare an \<^verbatim>\<open>err\<close> of their own.
\<close>

definition deferredRollback :: "Env \<Rightarrow> bool \<Rightarrow> World \<Rightarrow> World" where
  "deferredRollback env errSet w = (if errSet then snd (Rollback env w) else w)"

definition ProcessUnsentMessages :: "Env \<Rightarrow> go_int \<Rightarrow> World \<Rightarrow> (error + unit) \<times> World" where
  "ProcessUnsentMessages env batchSize w =
     (case BeginTx env w of
        (Inl _, w1) \<Rightarrow> (Inl BeginFailed, w1)
      | (Inr _, w1) \<Rightarrow>
          (case ListAndLockUnsent env batchSize w1 of
             (Inl e, w2) \<Rightarrow> (Inl (ClaimFailed e), deferredRollback env True w2)
           | (Inr dbMessages, w2) \<Rightarrow>
               if length dbMessages = 0 then
                 (case Commit env w2 of
                    (Inl _, w3) \<Rightarrow> (Inl CommitFailed, deferredRollback env False w3)
                  | (Inr _, w3) \<Rightarrow> (Inr (), deferredRollback env False w3))
               else
                 let w3 = sendEach env (ToDomainSlice dbMessages) w2
                 in (case Commit env w3 of
                       (Inl _, w4) \<Rightarrow> (Inl CommitFailed, deferredRollback env False w4)
                     | (Inr _, w4) \<Rightarrow> (Inr (), deferredRollback env False w4))))"

section \<open>Scheduler\<close>

text \<open>
  A \<^verbatim>\<open>scheduler.Client\<close> with the goroutines it has started.  Each call of
  \<^verbatim>\<open>Start\<close> launches one goroutine running \<^verbatim>\<open>run\<close>; such a loop is about to enter
  \<^verbatim>\<open>processTask\<close>, is inside the task holding \<^verbatim>\<open>taskRunning\<close>, waits in the
  \<^verbatim>\<open>select\<close>, or has returned.  \<open>ticker\<close> is \<open>Some True\<close> while the ticker runs and
  \<open>Some False\<close> once it is stopped; \<open>tickPending\<close> says that the channel of the
  ticker, which holds one tick at most, holds a tick that no loop has received yet;
  \<open>ctx\<close> is \<open>Some True\<close> once the context is cancelled; \<open>wg\<close> is the counter of the
  wait group; \<open>started\<close> counts the task invocations begun so far.
\<close>

datatype pc = AtProcessTask | InTask | AtSelect | Exited

datatype task = ProcessUnsent

record Client =
  task :: "task option"
  interval :: "64 word"
  ticker :: "bool option"
  tickPending :: bool
  ctx :: "bool option"
  wg :: nat
  taskRunning :: bool
  loops :: "pc list"
  started :: nat

definition Run :: Client where
  "Run = \<lparr>task = None, interval = 0, ticker = None, tickPending = False, ctx = None,
          wg = 0, taskRunning = False, loops = [], started = 0\<rparr>"

definition Minute :: "64 word" where
  "Minute = 60000000000"

text \<open>
  \<^verbatim>\<open>Client.Start\<close>.  \<^verbatim>\<open>time.NewTicker\<close> panics on a duration that is not positive;
  the assignments made before it stay, and \<open>Inl ()\<close> is the panic.  The new ticker
  comes with an empty channel.
\<close>

definition Start :: "task \<Rightarrow> go_int \<Rightarrow> Client \<Rightarrow> (unit + unit) \<times> Client" where
  "Start tk intervalMinutes c =
     (let c1 = c\<lparr>task := Some tk, interval := intervalMinutes * Minute, ctx := Some False\<rparr>
      in if sint (interval c1) \<le> 0 then (Inl (), c1)
         else (Inr (), c1\<lparr>ticker := Some True, tickPending := False, wg := wg c1 + 1,
                           loops := loops c1 @ [AtProcessTask]\<rparr>))"

text \<open>
  The steps of the loop with index \<open>i\<close>: the \<^verbatim>\<open>TryLock\<close> that opens \<^verbatim>\<open>processTask\<close>
  (on failure the call returns at once), the return of the task with the deferred
  \<^verbatim>\<open>Unlock\<close>, the receipt of a tick from the channel of the ticker and the receipt
  of the cancellation, after which the loop returns and the deferred \<^verbatim>\<open>wg.Done\<close>
  runs.  \<open>EvFire\<close> is the running ticker firing: the tick goes into the channel, and
  is dropped when the channel already holds one.  A loop receives a tick only
  while it waits in its \<^verbatim>\<open>select\<close>, so a tick fired while the loop is inside the task
  stays in the channel until the task has returned.  A step that cannot be taken in
  the state yields \<open>None\<close>.
\<close>

datatype event = EvTryLock nat | EvTaskReturn nat | EvFire | EvTick nat | EvDone nat

fun loopStep :: "event \<Rightarrow> Client \<Rightarrow> Client option" where
  "loopStep (EvTryLock i) c =
     (if i < length (loops c) \<and> loops c ! i = AtProcessTask then
        (if taskRunning c then Some (c\<lparr>loops := (loops c)[i := AtSelect]\<rparr>)
         else Some (c\<lparr>taskRunning := True, loops := (loops c)[i := InTask],
                      started := Suc (started c)\<rparr>))
      else None)"
| "loopStep (EvTaskReturn i) c =
     (if i < length (loops c) \<and> loops c ! i = InTask
      then Some (c\<lparr>taskRunning := False, loops := (loops c)[i := AtSelect]\<rparr>)
      else None)"
| "loopStep EvFire c =
     (if ticker c = Some True then Some (c\<lparr>tickPending := True\<rparr>) else None)"
| "loopStep (EvTick i) c =
     (if i < length (loops c) \<and> loops c ! i = AtSelect \<and> ticker c = Some True
           \<and> tickPending c
      then Some (c\<lparr>tickPending := False, loops := (loops c)[i := AtProcessTask]\<rparr>)
      else None)"
| "loopStep (EvDone i) c =
     (if i < length (loops c) \<and> loops c ! i = AtSelect \<and> ctx c = Some True
      then Some (c\<lparr>wg := wg c - 1, loops := (loops c)[i := Exited]\<rparr>)
      else None)"

fun runLoops :: "event list \<Rightarrow> Client \<Rightarrow> Client option" where
  "runLoops [] c = Some c"
| "runLoops (e # es) c = (case loopStep e c of None \<Rightarrow> None | Some c' \<Rightarrow> runLoops es c')"

text \<open>
  \<^verbatim>\<open>Client.Stop\<close> stops the ticker, cancels the context and waits on the wait group.
  No tick of a stopped ticker is received.
  \<open>sched\<close> is what the loops do while it waits: the call returns in the state they
  reach if the counter is zero there, and is still blocked otherwise.
\<close>

definition stopSignal :: "Client \<Rightarrow> Client" where
  "stopSignal c = c\<lparr>ticker := map_option (\<lambda>_. False) (ticker c), tickPending := False,
                    ctx := map_option (\<lambda>_. True) (ctx c)\<rparr>"

definition Stop :: "event list \<Rightarrow> Client \<Rightarrow> Client option" where
  "Stop sched c =
     (case runLoops sched (stopSignal c) of
        None \<Rightarrow> None
      | Some c' \<Rightarrow> if wg c' = 0 then Some c' else None)"

text \<open>
  The histories of a client: calls of \<^verbatim>\<open>Start\<close>, the signalling part of \<^verbatim>\<open>Stop\<close>,
  steps of the loops and firings of the ticker, in any order.
\<close>

datatype op = OpStart task go_int | OpStopSignal | OpLoop event

fun runOps :: "op list \<Rightarrow> Client \<Rightarrow> Client option" where
  "runOps [] c = Some c"
| "runOps (OpStart tk m # ops) c = runOps ops (snd (Start tk m c))"
| "runOps (OpStopSignal # ops) c = runOps ops (stopSignal c)"
| "runOps (OpLoop e # ops) c = (case loopStep e c of None \<Rightarrow> None | Some c' \<Rightarrow> runOps ops c')"

definition live :: "Client \<Rightarrow> nat" where
  "live c = length (filter (\<lambda>p. p \<noteq> Exited) (loops c))"

definition executing :: "Client \<Rightarrow> nat" where
  "executing c = length (filter (\<lambda>p. p = InTask) (loops c))"

text \<open>The scheduler fields of \<^verbatim>\<open>message.Service\<close> and \<^verbatim>\<open>StartScheduler\<close>.\<close>

record Service =
  scheduler :: Client
  intervalMinutes :: go_int
  messageBatchSize :: go_int

definition StartScheduler ::
  "event list \<Rightarrow> go_int \<Rightarrow> go_int \<Rightarrow> Service \<Rightarrow> ((unit + unit) \<times> Service) option" where
  "StartScheduler sched minutes batchSize s =
     (case Stop sched (scheduler s) of
        None \<Rightarrow> None
      | Some c1 \<Rightarrow>
          let s1 = s\<lparr>scheduler := c1, intervalMinutes := minutes, messageBatchSize := batchSize\<rparr>;
              (r, c2) = Start ProcessUnsent (intervalMinutes s1) (scheduler s1)
          in Some (r, s1\<lparr>scheduler := c2\<rparr>))"

text \<open>
  The two parts of \<^verbatim>\<open>StartScheduler\<close>, each run under the mutex of the client: the
  call of \<^verbatim>\<open>Stop\<close>, and the assignments followed by the call of \<^verbatim>\<open>Start\<close>.  The
  service holds no lock from the one to the other, so the parts of two calls made
  by two request handlers can alternate; \<open>restartRace\<close> is the order in which both
  stops return before either start.
\<close>

definition restartStop :: "event list \<Rightarrow> Service \<Rightarrow> Service option" where
  "restartStop sched s = map_option (\<lambda>c. s\<lparr>scheduler := c\<rparr>) (Stop sched (scheduler s))"

definition restartStart :: "go_int \<Rightarrow> go_int \<Rightarrow> Service \<Rightarrow> (unit + unit) \<times> Service" where
  "restartStart minutes batchSize s =
     (let s1 = s\<lparr>intervalMinutes := minutes, messageBatchSize := batchSize\<rparr>;
          (r, c2) = Start ProcessUnsent (intervalMinutes s1) (scheduler s1)
      in (r, s1\<lparr>scheduler := c2\<rparr>))"

definition restartRace ::
  "event list \<Rightarrow> event list \<Rightarrow> go_int \<Rightarrow> go_int \<Rightarrow> Service \<Rightarrow> Service option" where
  "restartRace schedA schedB minutes batchSize s =
     (case restartStop schedA s of
        None \<Rightarrow> None
      | Some s1 \<Rightarrow>
          (case restartStop schedB s1 of
             None \<Rightarrow> None
           | Some s2 \<Rightarrow>
               Some (snd (restartStart minutes batchSize
                        (snd (restartStart minutes batchSize s2))))))"

section \<open>Notions used in the statements\<close>

text \<open>
  The destination format in words: an optional plus sign, a digit from 1 to 9,
  then between one and fourteen further digits.
\<close>

definition is_intl_phone :: "string \<Rightarrow> bool" where
  "is_intl_phone s =
     (let t = (case s of [] \<Rightarrow> [] | c # cs \<Rightarrow> if c = CHR ''+'' then cs else s)
      in case t of
           [] \<Rightarrow> False
         | d # ds \<Rightarrow> in_range (CHR ''1'') (CHR ''9'') d \<and> 1 \<le> length ds \<and> length ds \<le> 14
                     \<and> list_all (in_range (CHR ''0'') (CHR ''9'')) ds)"

definition viewOf :: "World \<Rightarrow> PgMessage list" where
  "viewOf w = (case tx w of None \<Rightarrow> [] | Some t \<Rightarrow> view t)"

definition rowById :: "int64 \<Rightarrow> PgMessage list \<Rightarrow> PgMessage option" where
  "rowById i rows = find (\<lambda>r. pg_ID r = i) rows"

text \<open>The rows a cycle claims when the store answers: the oldest claimable ones.\<close>

definition claimedBatch :: "World \<Rightarrow> go_int \<Rightarrow> PgMessage list" where
  "claimedBatch w n = take (nat (sint n)) (claimable w (table w))"

definition isSendOrExec :: "call \<Rightarrow> bool" where
  "isSendOrExec c = (case c of CallSend _ _ \<Rightarrow> True | CallExec _ \<Rightarrow> True | _ \<Rightarrow> False)"

text \<open>
  The rows locked by any transaction, and the pending rows that a claim made by
  another instance can take.
\<close>

definition lockedRows :: "World \<Rightarrow> int64 list" where
  "lockedRows w = others w @ (case tx w of None \<Rightarrow> [] | Some t \<Rightarrow> held t)"

definition visiblePending :: "World \<Rightarrow> PgMessage list" where
  "visiblePending w =
     filter (\<lambda>r. pg_ProcessedAt r = None \<and> pg_ID r \<notin> set (lockedRows w)) (table w)"

text \<open>
  What holds of every client that can arise: the wait group counts the loops that
  have not returned, \<^verbatim>\<open>taskRunning\<close> is held exactly while one loop is inside the
  task, and a client with loops has a context.  \<open>remaining\<close> bounds the steps the
  loops still take once the context is cancelled and no tick comes.
\<close>

definition sched_inv :: "Client \<Rightarrow> bool" where
  "sched_inv c =
     (wg c = live c \<and> executing c = (if taskRunning c then 1 else 0)
      \<and> (loops c \<noteq> [] \<longrightarrow> ctx c \<noteq> None))"

fun weight :: "pc \<Rightarrow> nat" where
  "weight AtProcessTask = 3"
| "weight InTask = 2"
| "weight AtSelect = 1"
| "weight Exited = 0"

definition remaining :: "Client \<Rightarrow> nat" where
  "remaining c = sum_list (map weight (loops c))"

text \<open>Concrete data for the examples: a draft message, a pending row, a world
  holding given rows and nothing else, and an environment in which nothing fails.\<close>

definition draft :: "string \<Rightarrow> string \<Rightarrow> Message" where
  "draft phoneNumber content =
     \<lparr>ID = 0, PhoneNumber = phoneNumber, Content = content, CreatedAt = 0,
      MessageID = None, ProcessedAt = None\<rparr>"

definition pendingRow :: "int64 \<Rightarrow> time \<Rightarrow> PgMessage" where
  "pendingRow i t =
     \<lparr>pg_ID = i, pg_PhoneNumber = ''+1234567890'', pg_Content = ''hello'',
      pg_CreatedAt = t, pg_MessageID = None, pg_ProcessedAt = None\<rparr>"

definition worldOf :: "PgMessage list \<Rightarrow> World" where
  "worldOf rows =
     \<lparr>table = rows, others = [], tx = None, nextId = 1, sends = 0, ticks = 0,
      calls = [], logged = []\<rparr>"

definition calmEnv :: Env where
  "calmEnv =
     \<lparr>beginFails = False, queryFault = QueryOk, execFault = (\<lambda>_. ExecOk),
      commitFails = False, rollbackFails = False, insertFails = False,
      webhook = (\<lambda>k p c. Inr ''ref''), now = (\<lambda>k. 100 + int k)\<rparr>"

text \<open>
  Two environments with one fault each: the webhook fails at its second call, and
  the update of message 1 affects no row.
\<close>

definition secondSendFails :: Env where
  "secondSendFails =
     calmEnv\<lparr>webhook := (\<lambda>k p c. if k = 1 then Inl TransportFailed else Inr ''ref'')\<rparr>"

definition firstRowVanished :: Env where
  "firstRowVanished =
     calmEnv\<lparr>execFault := (\<lambda>i. if i = 1 then ExecNoRow else ExecOk)\<rparr>"

text \<open>
  A service whose scheduler was started once with an interval of two minutes, as
  \<^verbatim>\<open>NewService\<close> leaves it with the default configuration, and what is observed of a
  client: where its loops are, whether a tick waits in the channel, and how many
  task invocations have begun.
\<close>

definition runningService :: Service where
  "runningService =
     \<lparr>scheduler = snd (Start ProcessUnsent 2 Run), intervalMinutes = 2, messageBatchSize = 2\<rparr>"

definition observed :: "Client \<Rightarrow> pc list \<times> bool \<times> nat" where
  "observed c = (loops c, tickPending c, started c)"

definition liveLoops :: "Service \<Rightarrow> nat" where
  "liveLoops s = live (scheduler s)"

section \<open>The destination pattern\<close>

lemma rep_class_upto:
  "[] \<in> set (rep (class_step P) 0 n s) \<longleftrightarrow> length s \<le> n \<and> list_all P s"
proof (induction n arbitrary: s)
  case 0
  then show ?case by auto
next
  case (Suc n)
  then show ?case by (cases s) (auto simp: class_step_def)
qed

lemma rep_class_from_one:
  "[] \<in> set (rep (class_step P) (Suc 0) n s)
     \<longleftrightarrow> Suc 0 \<le> length s \<and> length s \<le> n \<and> list_all P s"
  by (cases n; cases s) (auto simp: rep_class_upto class_step_def)

lemma plus_not_lead: "\<not> in_range (CHR ''1'') (CHR ''9'') (CHR ''+'')"
  by (simp add: in_range_def)

lemma tail_match:
  "[] \<in> set (residuals (Seq (Range (CHR ''1'') (CHR ''9'')) (Repeat (Range (CHR ''0'') (CHR ''9'')) 1 14)) t)
   \<longleftrightarrow> (case t of [] \<Rightarrow> False | d # ds \<Rightarrow> in_range (CHR ''1'') (CHR ''9'') d \<and> 1 \<le> length ds \<and> length ds \<le> 14
                     \<and> list_all (in_range (CHR ''0'') (CHR ''9'')) ds)"
  by (cases t) (auto simp: rep_class_from_one class_step_def)

lemma phoneRegex_shape: "phoneRegex_MatchString s = is_intl_phone s"
proof (cases s)
  case Nil
  then show ?thesis
    by (simp add: phoneRegex_MatchString_def MatchAnchored_def phoneRegex_def is_intl_phone_def class_step_def)
next
  case (Cons c cs)
  let ?tail = "Seq (Range (CHR ''1'') (CHR ''9'')) (Repeat (Range (CHR ''0'') (CHR ''9'')) 1 14)"
  have split: "residuals (Seq (Opt (Lit (CHR ''+''))) ?tail) s
      = (if c = CHR ''+'' then residuals ?tail cs else []) @ residuals ?tail s"
    using Cons by (simp only: residuals.simps(1,3,5) class_step_def list.case) simp
  have "MatchAnchored phoneRegex s \<longleftrightarrow>
     ([] \<in> set (residuals ?tail s) \<or> (c = CHR ''+'' \<and> [] \<in> set (residuals ?tail cs)))"
    unfolding MatchAnchored_def phoneRegex_def split by auto
  also have "\<dots> \<longleftrightarrow> is_intl_phone s"
    unfolding tail_match is_intl_phone_def using Cons
    by (auto simp: plus_not_lead split: list.splits)
  finally show ?thesis
    by (simp add: phoneRegex_MatchString_def)
qed

text \<open>
  Claim C1, as stated, asks that the destination \<^verbatim>\<open>1234\<close> be rejected.  The pattern
  makes the plus sign optional and asks for two to fifteen digits, so the
  validator accepts it.
\<close>

theorem Validate_accepts_1234: "Validate (draft ''1234'' ''hi'') = Inr ()"
  by code_simp

text \<open>
  Claim C1, amended: \<^verbatim>\<open>Validate\<close> succeeds exactly when the destination is an
  optional plus sign, a digit from 1 to 9 and one to fourteen further digits, and
  the content is non-empty and at most 500 bytes long.
\<close>

theorem Validate_accepts_iff:
  "Validate m = Inr () \<longleftrightarrow>
     is_intl_phone (PhoneNumber m) \<and> Content m \<noteq> [] \<and> length (Content m) \<le> 500"
proof -
  have "\<not> is_intl_phone []" by (simp add: is_intl_phone_def)
  then show ?thesis
    by (auto simp: Validate_def phoneRegex_shape MaxContentLength_def)
qed

text \<open>
  At the boundary: 500 bytes of content pass and 501 do not; \<^verbatim>\<open>+1234567890\<close> and
  \<^verbatim>\<open>1234\<close> pass and \<^verbatim>\<open>abc\<close> does not.
\<close>

theorem Validate_accepts_iff_witness:
  "Validate (draft ''+1234567890'' (replicate 500 (CHR ''a''))) = Inr ()
   \<and> Validate (draft ''+1234567890'' (replicate 501 (CHR ''a''))) \<noteq> Inr ()
   \<and> Validate (draft ''1234'' ''hi'') = Inr ()
   \<and> Validate (draft ''abc'' ''hi'') \<noteq> Inr ()"
  using Validate_accepts_iff [of "draft ''+1234567890'' (replicate 500 (CHR ''a''))"]
    Validate_accepts_iff [of "draft ''+1234567890'' (replicate 501 (CHR ''a''))"]
    Validate_accepts_iff [of "draft ''1234'' ''hi''"]
    Validate_accepts_iff [of "draft ''abc'' ''hi''"]
  by (simp add: draft_def is_intl_phone_def in_range_def)

section \<open>Mappers are inverse to each other\<close>

text \<open>
  Claim C10: mapping a domain message to its persistence record and back gives the
  message again, field for field, and likewise from a persistence record; both
  mappers send the nil pointer to the nil pointer.
\<close>

theorem mappers_inverse:
  "ToDomain (ToPostgres m) = m \<and> ToPostgres (ToDomain p) = p
   \<and> ToDomain None = None \<and> ToPostgres None = None"
  by (cases m; cases p) (simp_all add: ToDomain_def ToPostgres_def domainOf_def postgresOf_def)

section \<open>Creation\<close>

text \<open>
  Claim C9: when the destination does not match the pattern, or the content is
  empty or longer than the cap, \<^verbatim>\<open>CreateMessage\<close> returns a validation error and
  the insert is never called: no call leaves the service, and the table and its
  sequence are unchanged.
\<close>

theorem create_invalid_no_write:
  assumes "\<not> phoneRegex_MatchString phoneNumber \<or> content = [] \<or> length content > MaxContentLength"
  shows "\<exists>e. fst (CreateMessage env phoneNumber content w) = Inl (ValidationFailed e)
         \<and> calls (snd (CreateMessage env phoneNumber content w)) = calls w
         \<and> table (snd (CreateMessage env phoneNumber content w)) = table w
         \<and> nextId (snd (CreateMessage env phoneNumber content w)) = nextId w"
  using assms
  by (auto simp: CreateMessage_def Validate_def time_Now_def Let_def split: sum.splits)

text \<open>
  The destination \<^verbatim>\<open>abc\<close> is refused before any write.
\<close>

theorem create_invalid_no_write_witness:
  "\<not> phoneRegex_MatchString ''abc''
   \<and> (\<exists>e. fst (CreateMessage calmEnv ''abc'' ''hi'' (worldOf [])) = Inl (ValidationFailed e)
         \<and> calls (snd (CreateMessage calmEnv ''abc'' ''hi'' (worldOf []))) = calls (worldOf [])
         \<and> table (snd (CreateMessage calmEnv ''abc'' ''hi'' (worldOf []))) = table (worldOf [])
         \<and> nextId (snd (CreateMessage calmEnv ''abc'' ''hi'' (worldOf []))) = nextId (worldOf []))"
proof -
  have h: "\<not> phoneRegex_MatchString ''abc''" by code_simp
  then have "\<not> phoneRegex_MatchString ''abc'' \<or> ''hi'' = [] \<or> length ''hi'' > MaxContentLength"
    by simp
  from create_invalid_no_write [OF this] h show ?thesis by blast
qed

section \<open>The dispatch cycle\<close>

text \<open>
  Claim C5: a cycle that fails after its transaction has begun and before the
  commit fails in the claim; it calls \<^verbatim>\<open>Rollback\<close> as its last call, nothing it did
  is in the table, its transaction is closed, and every pending row that no other
  transaction holds can be claimed again.
\<close>

theorem abort_rolls_back:
  assumes "fst (ProcessUnsentMessages env n w) = Inl e" "e \<noteq> BeginFailed" "e \<noteq> CommitFailed"
  shows "(\<exists>q. e = ClaimFailed q)
       \<and> calls (snd (ProcessUnsentMessages env n w)) = calls w @ [CallBegin, CallQuery n, CallRollback]
       \<and> table (snd (ProcessUnsentMessages env n w)) = table w
       \<and> tx (snd (ProcessUnsentMessages env n w)) = None
       \<and> visiblePending (snd (ProcessUnsentMessages env n w))
           = filter (\<lambda>r. pg_ProcessedAt r = None \<and> pg_ID r \<notin> set (others w)) (table w)"
  using assms
  by (auto simp: ProcessUnsentMessages_def BeginTx_def ListAndLockUnsent_def tx_Query_def
        deferredRollback_def Rollback_def Commit_def logCall_def Let_def visiblePending_def lockedRows_def
      split: if_splits sum.splits prod.splits option.splits)

text \<open>
  A cycle whose claim fails while the rows are read, after the statement has locked
  them.
\<close>

lemma scan_abort_run:
  "fst (ProcessUnsentMessages (calmEnv\<lparr>queryFault := ScanFails\<rparr>) 2
          (worldOf [pendingRow 1 10, pendingRow 2 20])) = Inl (ClaimFailed ScanFailed)"
  by (simp add: ProcessUnsentMessages_def BeginTx_def ListAndLockUnsent_def tx_Query_def
        deferredRollback_def Rollback_def logCall_def Let_def calmEnv_def worldOf_def pendingRow_def
        claimable_def)

lemma scan_abort_locks:
  "lockedRows (snd (ListAndLockUnsent (calmEnv\<lparr>queryFault := ScanFails\<rparr>) 2
          (snd (BeginTx (calmEnv\<lparr>queryFault := ScanFails\<rparr>)
             (worldOf [pendingRow 1 10, pendingRow 2 20]))))) = [1, 2]"
  by (simp add: BeginTx_def ListAndLockUnsent_def tx_Query_def lockedRows_def
        logCall_def Let_def calmEnv_def worldOf_def pendingRow_def claimable_def)

text \<open>
  The two rows are locked when the claim fails, and both are claimable again when
  the cycle has returned.
\<close>

theorem abort_rolls_back_witness:
  "lockedRows (snd (ListAndLockUnsent (calmEnv\<lparr>queryFault := ScanFails\<rparr>) 2
          (snd (BeginTx (calmEnv\<lparr>queryFault := ScanFails\<rparr>)
             (worldOf [pendingRow 1 10, pendingRow 2 20]))))) = [1, 2]
   \<and> fst (ProcessUnsentMessages (calmEnv\<lparr>queryFault := ScanFails\<rparr>) 2
          (worldOf [pendingRow 1 10, pendingRow 2 20])) = Inl (ClaimFailed ScanFailed)
   \<and> calls (snd (ProcessUnsentMessages (calmEnv\<lparr>queryFault := ScanFails\<rparr>) 2
          (worldOf [pendingRow 1 10, pendingRow 2 20]))) = [CallBegin, CallQuery 2, CallRollback]
   \<and> visiblePending (snd (ProcessUnsentMessages (calmEnv\<lparr>queryFault := ScanFails\<rparr>) 2
          (worldOf [pendingRow 1 10, pendingRow 2 20]))) = [pendingRow 1 10, pendingRow 2 20]"
  using abort_rolls_back [OF scan_abort_run] scan_abort_run scan_abort_locks
  by (simp add: worldOf_def pendingRow_def)

text \<open>
  Claim C7: when the transaction begins, the claim returns no message and the
  commit succeeds, the cycle returns success; its calls are the begin, the query
  and the commit, so the webhook is not called and no outcome is recorded.
\<close>

theorem empty_claim_commits:
  assumes "\<not> beginFails env" "\<not> commitFails env"
    and "fst (ListAndLockUnsent env n (snd (BeginTx env w))) = Inr []"
  shows "fst (ProcessUnsentMessages env n w) = Inr ()
       \<and> calls (snd (ProcessUnsentMessages env n w)) = calls w @ [CallBegin, CallQuery n, CallCommit]
       \<and> sends (snd (ProcessUnsentMessages env n w)) = sends w
       \<and> table (snd (ProcessUnsentMessages env n w)) = table w
       \<and> tx (snd (ProcessUnsentMessages env n w)) = None"
  using assms
  by (auto simp: ProcessUnsentMessages_def BeginTx_def ListAndLockUnsent_def tx_Query_def
        deferredRollback_def Rollback_def Commit_def logCall_def Let_def
      split: if_splits sum.splits prod.splits option.splits)

text \<open>
  A cycle on an empty table.
\<close>

theorem empty_claim_commits_witness:
  "fst (ProcessUnsentMessages calmEnv 2 (worldOf [])) = Inr ()
   \<and> calls (snd (ProcessUnsentMessages calmEnv 2 (worldOf []))) = [CallBegin, CallQuery 2, CallCommit]
   \<and> sends (snd (ProcessUnsentMessages calmEnv 2 (worldOf []))) = 0"
proof -
  have b: "\<not> beginFails calmEnv" and c: "\<not> commitFails calmEnv"
    by (simp_all add: calmEnv_def)
  have q: "fst (ListAndLockUnsent calmEnv 2 (snd (BeginTx calmEnv (worldOf [])))) = Inr []"
    by (simp add: BeginTx_def ListAndLockUnsent_def tx_Query_def logCall_def Let_def calmEnv_def
          worldOf_def claimable_def)
  from empty_claim_commits [OF b c q] show ?thesis
    by (simp add: worldOf_def)
qed


subsection \<open>Rows through a committed cycle\<close>

text \<open>
  One pass of the loop touches only the row of its message; the loop is the
  composition of its passes, so each claimed row ends as its own pass leaves it.
\<close>

lemma rowById_map:
  assumes "\<And>r. pg_ID (f r) = pg_ID r"
  shows "rowById i (map f rows) = map_option f (rowById i rows)"
  by (induction rows) (simp_all add: rowById_def assms)

lemma rowById_mem:
  "distinct (map pg_ID rows) \<Longrightarrow> r \<in> set rows \<Longrightarrow> rowById (pg_ID r) rows = Some r"
  by (induction rows) (auto simp: rowById_def)

lemma step_frame:
  "tx w = Some t \<Longrightarrow>
     (\<exists>t'. tx (sendOrLog env m w) = Some t' \<and> held t' = held t)
     \<and> sends (sendOrLog env m w) = Suc (sends w)
     \<and> table (sendOrLog env m w) = table w
     \<and> others (sendOrLog env m w) = others w
     \<and> (\<exists>cs. calls (sendOrLog env m w) = calls w @ cs \<and> list_all isSendOrExec cs)"
  by (auto simp: sendOrLog_def sendMessageWithTx_def SendMessage_def time_Now_def UpdateWithTx_def tx_Exec_def
        logCall_def isSendOrExec_def
      split: sum.splits exec_fault.splits)

lemma step_other_row:
  "i \<noteq> ID m \<Longrightarrow> rowById i (viewOf (sendOrLog env m w)) = rowById i (viewOf w)"
proof -
  assume ne: "i \<noteq> ID m"
  have upd: "\<And>a b rows. rowById i (map (\<lambda>r. if pg_ID r = ID m
                then r\<lparr>pg_MessageID := a, pg_ProcessedAt := b\<rparr> else r) rows) = rowById i rows"
    subgoal for a b rows using ne by (induction rows) (auto simp: rowById_def)
    done
  show ?thesis
    by (auto simp: sendOrLog_def sendMessageWithTx_def SendMessage_def time_Now_def UpdateWithTx_def tx_Exec_def
        logCall_def viewOf_def upd
      split: sum.splits exec_fault.splits option.splits)
qed

lemma step_send_failed:
  "webhook env (sends w) (PhoneNumber m) (Content m) = Inl e \<Longrightarrow>
     viewOf (sendOrLog env m w) = viewOf w"
  by (simp add: sendOrLog_def sendMessageWithTx_def SendMessage_def logCall_def viewOf_def)

lemma step_exec_fault:
  "execFault env (ID m) \<noteq> ExecOk \<Longrightarrow>
     viewOf (sendOrLog env m w) = viewOf w"
  by (auto simp: sendOrLog_def sendMessageWithTx_def SendMessage_def time_Now_def UpdateWithTx_def tx_Exec_def
        logCall_def viewOf_def
      split: sum.splits exec_fault.splits option.splits)

lemma step_recorded:
  assumes "webhook env (sends w) (PhoneNumber m) (Content m) = Inr ref"
    and "execFault env (ID m) = ExecOk"
    and "rowById (ID m) (viewOf w) = Some r"
  shows "rowById (ID m) (viewOf (sendOrLog env m w))
           = Some (r\<lparr>pg_MessageID := Some ref, pg_ProcessedAt := Some (now env (ticks w))\<rparr>)"
proof -
  have upd: "\<And>a b rows. rowById (ID m) rows = Some r \<Longrightarrow>
      rowById (ID m) (map (\<lambda>r. if pg_ID r = ID m
                then r\<lparr>pg_MessageID := a, pg_ProcessedAt := b\<rparr> else r) rows)
        = Some (r\<lparr>pg_MessageID := a, pg_ProcessedAt := b\<rparr>)"
    subgoal for a b rows by (induction rows) (auto simp: rowById_def)
    done
  from assms(3) obtain t where t: "tx w = Some t" "rowById (ID m) (view t) = Some r"
    by (auto simp: viewOf_def rowById_def split: option.splits)
  show ?thesis
    using assms(1,2) t
    by (auto simp: sendOrLog_def sendMessageWithTx_def SendMessage_def time_Now_def UpdateWithTx_def tx_Exec_def
        logCall_def viewOf_def upd
      split: sum.splits exec_fault.splits option.splits)
qed

lemma sendEach_append: "sendEach env (xs @ ys) w = sendEach env ys (sendEach env xs w)"
  by (induction xs arbitrary: w) simp_all

lemma sendEach_frame:
  "tx w = Some t \<Longrightarrow>
     (\<exists>t'. tx (sendEach env ms w) = Some t' \<and> held t' = held t)
     \<and> sends (sendEach env ms w) = sends w + length ms
     \<and> table (sendEach env ms w) = table w
     \<and> others (sendEach env ms w) = others w
     \<and> (\<exists>cs. calls (sendEach env ms w) = calls w @ cs \<and> list_all isSendOrExec cs)"
proof (induction ms arbitrary: w t)
  case Nil
  then show ?case by simp
next
  case (Cons m ms)
  from step_frame[OF Cons.prems, of env m]
  obtain t' cs where s: "tx (sendOrLog env m w) = Some t'" "held t' = held t"
     "sends (sendOrLog env m w) = Suc (sends w)"
     "table (sendOrLog env m w) = table w"
     "others (sendOrLog env m w) = others w"
     "calls (sendOrLog env m w) = calls w @ cs" "list_all isSendOrExec cs"
    by blast
  from Cons.IH[OF s(1)] s show ?case
    by auto
qed

lemma sendEach_other_row:
  "i \<notin> ID ` set ms \<Longrightarrow> rowById i (viewOf (sendEach env ms w)) = rowById i (viewOf w)"
  by (induction ms arbitrary: w) (simp_all add: step_other_row)

lemma sendEach_item:
  assumes "k < length ms" "distinct (map ID ms)" "tx w = Some t"
  shows "rowById (ID (ms ! k)) (viewOf (sendEach env ms w))
           = rowById (ID (ms ! k)) (viewOf (sendOrLog env (ms ! k) (sendEach env (take k ms) w)))"
    and "sends (sendEach env (take k ms) w) = sends w + k"
    and "rowById (ID (ms ! k)) (viewOf (sendEach env (take k ms) w)) = rowById (ID (ms ! k)) (viewOf w)"
proof -
  have split: "ms = take k ms @ (ms ! k) # drop (Suc k) ms"
    using assms(1) by (simp add: id_take_nth_drop)
  have d: "distinct (map ID (take k ms @ (ms ! k) # drop (Suc k) ms))"
    using assms(2) split by simp
  have notin_post: "ID (ms ! k) \<notin> ID ` set (drop (Suc k) ms)"
    and notin_pre: "ID (ms ! k) \<notin> ID ` set (take k ms)"
    using d by auto
  have "sendEach env ms w = sendEach env (drop (Suc k) ms)
          (sendOrLog env (ms ! k) (sendEach env (take k ms) w))"
    by (subst split) (simp add: sendEach_append)
  then show "rowById (ID (ms ! k)) (viewOf (sendEach env ms w))
           = rowById (ID (ms ! k)) (viewOf (sendOrLog env (ms ! k) (sendEach env (take k ms) w)))"
    using sendEach_other_row[OF notin_post] by simp
  show "sends (sendEach env (take k ms) w) = sends w + k"
    using sendEach_frame[OF assms(3), of env "take k ms"] assms(1) by simp
  show "rowById (ID (ms ! k)) (viewOf (sendEach env (take k ms) w)) = rowById (ID (ms ! k)) (viewOf w)"
    using sendEach_other_row[OF notin_pre] by simp
qed


lemma claimedBatch_props:
  assumes "distinct (map pg_ID (table w))"
  shows "distinct (map pg_ID (claimedBatch w n))"
    and "set (claimedBatch w n) \<subseteq> set (table w)"
    and "\<forall>r \<in> set (claimedBatch w n). pg_ProcessedAt r = None"
proof -
  let ?f = "filter (\<lambda>r. pg_ProcessedAt r = None \<and> pg_ID r \<notin> set (others w)) (table w)"
  have "distinct (map pg_ID ?f)"
    using assms by (rule distinct_map_filter)
  then have "distinct (map pg_ID (sort_key pg_CreatedAt ?f))"
    by (simp add: distinct_map)
  then have "distinct (take (nat (sint n)) (map pg_ID (sort_key pg_CreatedAt ?f)))"
    by (rule distinct_take)
  then show "distinct (map pg_ID (claimedBatch w n))"
    by (simp add: claimedBatch_def claimable_def take_map)
  have sub: "set (claimedBatch w n) \<subseteq> set ?f"
    unfolding claimedBatch_def claimable_def
    using set_take_subset[of "nat (sint n)" "sort_key pg_CreatedAt ?f"] by simp
  then show "set (claimedBatch w n) \<subseteq> set (table w)" by auto
  from sub show "\<forall>r \<in> set (claimedBatch w n). pg_ProcessedAt r = None" by auto
qed

lemma cycle_claimed:
  assumes "\<not> beginFails env" "queryFault env = QueryOk" "0 \<le> sint n"
  shows "ListAndLockUnsent env n (snd (BeginTx env w))
           = (Inr (claimedBatch w n),
              w\<lparr>tx := Some \<lparr>view = table w, held = map pg_ID (claimedBatch w n)\<rparr>,
                calls := calls w @ [CallBegin, CallQuery n]\<rparr>)"
    and "fst (BeginTx env w) = Inr ()"
  using assms
  by (simp_all add: ListAndLockUnsent_def tx_Query_def BeginTx_def logCall_def claimedBatch_def
        claimable_def Let_def)

lemma cycle_committed:
  fixes w :: World and n :: go_int
  assumes "\<not> beginFails env" "queryFault env = QueryOk" "0 \<le> sint n" "\<not> commitFails env"
  defines "w2 \<equiv> w\<lparr>tx := Some \<lparr>view = table w, held = map pg_ID (claimedBatch w n)\<rparr>,
                calls := calls w @ [CallBegin, CallQuery n]\<rparr>"
  shows "fst (ProcessUnsentMessages env n w) = Inr ()"
    and "table (snd (ProcessUnsentMessages env n w))
           = viewOf (sendEach env (ToDomainSlice (claimedBatch w n)) w2)"
    and "tx (snd (ProcessUnsentMessages env n w)) = None"
    and "\<exists>cs. calls (snd (ProcessUnsentMessages env n w))
               = calls w @ [CallBegin, CallQuery n] @ cs @ [CallCommit] \<and> list_all isSendOrExec cs"
proof -
  let ?ms = "ToDomainSlice (claimedBatch w n)"
  have open2: "tx w2 = Some \<lparr>view = table w, held = map pg_ID (claimedBatch w n)\<rparr>"
    by (simp add: w2_def)
  from sendEach_frame[OF open2, of env ?ms]
  obtain t' cs where fr: "tx (sendEach env ?ms w2) = Some t'"
      "calls (sendEach env ?ms w2) = calls w2 @ cs" "list_all isSendOrExec cs"
    by blast
  have unfold: "ProcessUnsentMessages env n w
      = (case Commit env (sendEach env ?ms w2) of
           (Inl _, w4) \<Rightarrow> (Inl CommitFailed, w4)
         | (Inr _, w4) \<Rightarrow> (Inr (), w4))"
    using cycle_claimed[OF assms(1-3), of w]
    by (cases "BeginTx env w")
       (auto simp: ProcessUnsentMessages_def w2_def deferredRollback_def ToDomainSlice_def
          split: sum.splits prod.splits)
  have commit: "Commit env (sendEach env ?ms w2)
      = (Inr (), logCall CallCommit ((sendEach env ?ms w2)\<lparr>table := view t', tx := None\<rparr>))"
    using fr(1) assms(4) by (simp add: Commit_def)
  show "fst (ProcessUnsentMessages env n w) = Inr ()"
    by (simp add: unfold commit)
  show "table (snd (ProcessUnsentMessages env n w)) = viewOf (sendEach env ?ms w2)"
    by (simp add: unfold commit logCall_def viewOf_def fr(1))
  show "tx (snd (ProcessUnsentMessages env n w)) = None"
    by (simp add: unfold commit logCall_def)
  have "calls (snd (ProcessUnsentMessages env n w)) = calls w2 @ cs @ [CallCommit]"
    by (simp add: unfold commit logCall_def fr(2))
  then have "calls (snd (ProcessUnsentMessages env n w)) = calls w @ [CallBegin, CallQuery n] @ cs @ [CallCommit]"
    by (simp add: w2_def)
  with fr(3) show "\<exists>cs. calls (snd (ProcessUnsentMessages env n w))
               = calls w @ [CallBegin, CallQuery n] @ cs @ [CallCommit] \<and> list_all isSendOrExec cs"
    by blast
qed

lemma cycle_row:
  fixes w :: World and n :: go_int and k :: nat
  assumes ok: "\<not> beginFails env" "queryFault env = QueryOk" "0 \<le> sint n" "\<not> commitFails env"
    and d: "distinct (map pg_ID (table w))"
    and k: "k < length (claimedBatch w n)"
  defines "r \<equiv> claimedBatch w n ! k"
  shows "webhook env (sends w + k) (pg_PhoneNumber r) (pg_Content r) = Inl e \<Longrightarrow>
           rowById (pg_ID r) (table (snd (ProcessUnsentMessages env n w))) = Some r"
    and "execFault env (pg_ID r) \<noteq> ExecOk \<Longrightarrow>
           rowById (pg_ID r) (table (snd (ProcessUnsentMessages env n w))) = Some r"
    and "webhook env (sends w + k) (pg_PhoneNumber r) (pg_Content r) = Inr ref \<Longrightarrow>
         execFault env (pg_ID r) = ExecOk \<Longrightarrow>
           \<exists>t. rowById (pg_ID r) (table (snd (ProcessUnsentMessages env n w)))
                 = Some (r\<lparr>pg_MessageID := Some ref, pg_ProcessedAt := Some t\<rparr>)"
proof -
  define w2 where "w2 = w\<lparr>tx := Some \<lparr>view = table w, held = map pg_ID (claimedBatch w n)\<rparr>,
                calls := calls w @ [CallBegin, CallQuery n]\<rparr>"
  let ?ms = "ToDomainSlice (claimedBatch w n)"
  let ?m = "?ms ! k"
  let ?wk = "sendEach env (take k ?ms) w2"
  have open2: "tx w2 = Some \<lparr>view = table w, held = map pg_ID (claimedBatch w n)\<rparr>"
    by (simp add: w2_def)
  have ids: "map ID ?ms = map pg_ID (claimedBatch w n)"
    by (simp add: ToDomainSlice_def domainOf_def)
  have km: "k < length ?ms" using k by (simp add: ToDomainSlice_def)
  have m: "ID ?m = pg_ID r" "PhoneNumber ?m = pg_PhoneNumber r" "Content ?m = pg_Content r"
    using k by (simp_all add: ToDomainSlice_def domainOf_def r_def)
  have dm: "distinct (map ID ?ms)"
    using claimedBatch_props(1)[OF d, of n] ids by simp
  have rin: "r \<in> set (table w)"
    using claimedBatch_props(2)[OF d, of n] k by (auto simp: r_def)
  have tbl: "table (snd (ProcessUnsentMessages env n w)) = viewOf (sendEach env ?ms w2)"
    using cycle_committed(2)[OF ok] by (simp add: w2_def)
  note item = sendEach_item[OF km dm open2, of env]
  have before: "rowById (pg_ID r) (viewOf ?wk) = Some r"
    using item(3) rowById_mem[OF d rin] by (simp add: m viewOf_def w2_def)
  have final: "rowById (pg_ID r) (table (snd (ProcessUnsentMessages env n w)))
      = rowById (pg_ID r) (viewOf (sendOrLog env ?m ?wk))"
    using item(1) by (simp add: tbl m)
  have snd2: "sends ?wk = sends w + k"
    using item(2) by (simp add: w2_def)
  show "webhook env (sends w + k) (pg_PhoneNumber r) (pg_Content r) = Inl e \<Longrightarrow>
           rowById (pg_ID r) (table (snd (ProcessUnsentMessages env n w))) = Some r"
    using step_send_failed[of env ?wk ?m e] before by (simp add: final snd2 m)
  show "execFault env (pg_ID r) \<noteq> ExecOk \<Longrightarrow>
           rowById (pg_ID r) (table (snd (ProcessUnsentMessages env n w))) = Some r"
    using step_exec_fault[of env ?m ?wk] before by (simp add: final m)
  show "webhook env (sends w + k) (pg_PhoneNumber r) (pg_Content r) = Inr ref \<Longrightarrow>
         execFault env (pg_ID r) = ExecOk \<Longrightarrow>
           \<exists>t. rowById (pg_ID r) (table (snd (ProcessUnsentMessages env n w)))
                 = Some (r\<lparr>pg_MessageID := Some ref, pg_ProcessedAt := Some t\<rparr>)"
  proof -
    assume "webhook env (sends w + k) (pg_PhoneNumber r) (pg_Content r) = Inr ref"
      and "execFault env (pg_ID r) = ExecOk"
    then have "rowById (pg_ID r) (table (snd (ProcessUnsentMessages env n w)))
        = Some (r\<lparr>pg_MessageID := Some ref, pg_ProcessedAt := Some (now env (ticks ?wk))\<rparr>)"
      using step_recorded[of env ?wk ?m ref r] before by (simp add: final snd2 m)
    then show ?thesis by blast
  qed
qed

lemma cycle_untouched:
  assumes ok: "\<not> beginFails env" "queryFault env = QueryOk" "0 \<le> sint n" "\<not> commitFails env"
    and "i \<notin> pg_ID ` set (claimedBatch w n)"
  shows "rowById i (table (snd (ProcessUnsentMessages env n w))) = rowById i (table w)"
proof -
  have "i \<notin> ID ` set (ToDomainSlice (claimedBatch w n))"
    using assms(5) by (auto simp: ToDomainSlice_def domainOf_def)
  from sendEach_other_row[OF this] show ?thesis
    using cycle_committed(2)[OF ok, of w] by (simp add: viewOf_def)
qed


lemma step_logs_not_found:
  assumes "tx w = Some t"
    and "webhook env (sends w) (PhoneNumber m) (Content m) = Inr ref"
    and "execFault env (ID m) = ExecNoRow"
  shows "logged (sendOrLog env m w) = logged w @ [(ID m, UpdateStatusFailed (NotFound (ID m)))]"
  using assms
  by (simp add: sendOrLog_def sendMessageWithTx_def SendMessage_def time_Now_def UpdateWithTx_def
        tx_Exec_def logCall_def)

lemma step_logged_mono: "set (logged w) \<subseteq> set (logged (sendOrLog env m w))"
  by (auto simp: sendOrLog_def sendMessageWithTx_def SendMessage_def time_Now_def UpdateWithTx_def
        tx_Exec_def logCall_def
      split: sum.splits exec_fault.splits option.splits)

lemma sendEach_logged_mono: "set (logged w) \<subseteq> set (logged (sendEach env ms w))"
proof (induction ms arbitrary: w)
  case Nil
  then show ?case by simp
next
  case (Cons m ms)
  have "set (logged w) \<subseteq> set (logged (sendOrLog env m w))" by (rule step_logged_mono)
  also have "\<dots> \<subseteq> set (logged (sendEach env ms (sendOrLog env m w)))" by (rule Cons.IH)
  finally show ?case by simp
qed

lemma sendEach_logs_item:
  assumes "k < length ms"
  shows "set (logged (sendOrLog env (ms ! k) (sendEach env (take k ms) w)))
           \<subseteq> set (logged (sendEach env ms w))"
proof -
  have split: "ms = take k ms @ (ms ! k) # drop (Suc k) ms"
    using assms by (simp add: id_take_nth_drop)
  have "sendEach env ms w = sendEach env (drop (Suc k) ms)
          (sendOrLog env (ms ! k) (sendEach env (take k ms) w))"
    by (subst split) (simp add: sendEach_append)
  then show ?thesis
    using sendEach_logged_mono by simp
qed

lemma cycle_logged:
  fixes w :: World and n :: go_int and k :: nat
  assumes ok: "\<not> beginFails env" "queryFault env = QueryOk" "0 \<le> sint n" "\<not> commitFails env"
    and k: "k < length (claimedBatch w n)"
  defines "r \<equiv> claimedBatch w n ! k"
  assumes nf: "webhook env (sends w + k) (pg_PhoneNumber r) (pg_Content r) = Inr ref"
      "execFault env (pg_ID r) = ExecNoRow"
  shows "(pg_ID r, UpdateStatusFailed (NotFound (pg_ID r)))
           \<in> set (logged (snd (ProcessUnsentMessages env n w)))"
proof -
  define w2 where "w2 = w\<lparr>tx := Some \<lparr>view = table w, held = map pg_ID (claimedBatch w n)\<rparr>,
                calls := calls w @ [CallBegin, CallQuery n]\<rparr>"
  let ?ms = "ToDomainSlice (claimedBatch w n)"
  let ?m = "?ms ! k"
  let ?wk = "sendEach env (take k ?ms) w2"
  have open2: "tx w2 = Some \<lparr>view = table w, held = map pg_ID (claimedBatch w n)\<rparr>"
    by (simp add: w2_def)
  have km: "k < length ?ms" using k by (simp add: ToDomainSlice_def)
  have m: "ID ?m = pg_ID r" "PhoneNumber ?m = pg_PhoneNumber r" "Content ?m = pg_Content r"
    using k by (simp_all add: ToDomainSlice_def domainOf_def r_def)
  from sendEach_frame[OF open2, of env "take k ?ms"] km
  obtain t' where wk: "tx ?wk = Some t'" "sends ?wk = sends w + k"
    by (auto simp: w2_def)
  have "logged (sendOrLog env ?m ?wk)
      = logged ?wk @ [(pg_ID r, UpdateStatusFailed (NotFound (pg_ID r)))]"
    using step_logs_not_found[OF wk(1), of env ?m ref] nf by (simp add: m wk(2))
  then have "(pg_ID r, UpdateStatusFailed (NotFound (pg_ID r)))
      \<in> set (logged (sendEach env ?ms w2))"
    using sendEach_logs_item[OF km, of env w2] by auto
  moreover have "logged (snd (ProcessUnsentMessages env n w)) = logged (sendEach env ?ms w2)"
  proof -
    from sendEach_frame[OF open2, of env ?ms]
    obtain t2 where fr: "tx (sendEach env ?ms w2) = Some t2" by blast
    have unfold: "ProcessUnsentMessages env n w
      = (case Commit env (sendEach env ?ms w2) of
           (Inl _, w4) \<Rightarrow> (Inl CommitFailed, w4)
         | (Inr _, w4) \<Rightarrow> (Inr (), w4))"
      using cycle_claimed[OF ok(1-3), of w]
      by (cases "BeginTx env w")
         (auto simp: ProcessUnsentMessages_def w2_def deferredRollback_def ToDomainSlice_def
            split: sum.splits prod.splits)
    show ?thesis
      using fr ok(4) by (simp add: unfold Commit_def logCall_def)
  qed
  ultimately show ?thesis by simp
qed

text \<open>
  Claim C4: in a cycle whose store calls succeed, the cycle returns success and its
  last call is the commit; a claimed message whose delivery fails keeps its row
  unchanged and pending, and one whose delivery succeeds has its row completed
  with the reference the webhook returned, whatever happens to the others.
\<close>

theorem delivery_failure_isolated:
  fixes w :: World and n :: go_int and k :: nat
  assumes "\<not> beginFails env" "queryFault env = QueryOk" "0 \<le> sint n" "\<not> commitFails env"
    and "distinct (map pg_ID (table w))"
    and "k < length (claimedBatch w n)"
    and "execFault env (pg_ID (claimedBatch w n ! k)) = ExecOk"
  shows "fst (ProcessUnsentMessages env n w) = Inr ()
       \<and> (\<exists>cs. calls (snd (ProcessUnsentMessages env n w))
                  = calls w @ [CallBegin, CallQuery n] @ cs @ [CallCommit]
                \<and> list_all isSendOrExec cs)
       \<and> (case webhook env (sends w + k) (pg_PhoneNumber (claimedBatch w n ! k))
                 (pg_Content (claimedBatch w n ! k)) of
            Inl e \<Rightarrow>
              rowById (pg_ID (claimedBatch w n ! k)) (table (snd (ProcessUnsentMessages env n w)))
                = Some (claimedBatch w n ! k)
              \<and> pg_ProcessedAt (claimedBatch w n ! k) = None
          | Inr ref \<Rightarrow>
              (\<exists>t. rowById (pg_ID (claimedBatch w n ! k)) (table (snd (ProcessUnsentMessages env n w)))
                = Some ((claimedBatch w n ! k)\<lparr>pg_MessageID := Some ref, pg_ProcessedAt := Some t\<rparr>)))"
proof -
  note ok = assms(1-4)
  have pend: "pg_ProcessedAt (claimedBatch w n ! k) = None"
    using claimedBatch_props(3)[OF assms(5), of n] assms(6) by simp
  show ?thesis
    using cycle_committed(1,4)[OF ok, of w] cycle_row(1,3)[OF ok assms(5,6)] assms(7) pend
    by (auto split: sum.splits)
qed

lemma second_fails_setup:
  "\<not> beginFails secondSendFails" "queryFault secondSendFails = QueryOk"
  "\<not> commitFails secondSendFails" "execFault secondSendFails i = ExecOk"
  "claimedBatch (worldOf [pendingRow 3 30, pendingRow 1 10, pendingRow 2 20]) 3
     = [pendingRow 1 10, pendingRow 2 20, pendingRow 3 30]"
  by (simp_all add: secondSendFails_def calmEnv_def claimedBatch_def claimable_def worldOf_def
        pendingRow_def)

text \<open>
  A batch of three in which the second delivery fails: messages 1 and 3 end
  completed and message 2 ends pending.
\<close>

theorem delivery_failure_isolated_witness:
  "fst (ProcessUnsentMessages secondSendFails 3
          (worldOf [pendingRow 3 30, pendingRow 1 10, pendingRow 2 20])) = Inr ()
   \<and> rowById 2 (table (snd (ProcessUnsentMessages secondSendFails 3
          (worldOf [pendingRow 3 30, pendingRow 1 10, pendingRow 2 20])))) = Some (pendingRow 2 20)
   \<and> pg_ProcessedAt (pendingRow 2 20) = None
   \<and> (\<exists>t. rowById 1 (table (snd (ProcessUnsentMessages secondSendFails 3
          (worldOf [pendingRow 3 30, pendingRow 1 10, pendingRow 2 20]))))
        = Some ((pendingRow 1 10)\<lparr>pg_MessageID := Some ''ref'', pg_ProcessedAt := Some t\<rparr>))
   \<and> (\<exists>t. rowById 3 (table (snd (ProcessUnsentMessages secondSendFails 3
          (worldOf [pendingRow 3 30, pendingRow 1 10, pendingRow 2 20]))))
        = Some ((pendingRow 3 30)\<lparr>pg_MessageID := Some ''ref'', pg_ProcessedAt := Some t\<rparr>))"
proof -
  let ?w = "worldOf [pendingRow 3 30, pendingRow 1 10, pendingRow 2 20]"
  have n: "0 \<le> sint (3 :: go_int)" by simp
  have d: "distinct (map pg_ID (table ?w))" by (simp add: worldOf_def pendingRow_def)
  note inst = delivery_failure_isolated [OF second_fails_setup(1,2) n second_fails_setup(3) d,
      unfolded second_fails_setup(5)]
  have s0: "sends ?w = 0" by (simp add: worldOf_def)
  from inst [of 0] inst [of 1] inst [of 2] show ?thesis
    by (simp add: second_fails_setup(4) s0) (simp add: secondSendFails_def pendingRow_def)
qed


text \<open>
  Claim C2, as stated, asks that the cycle abort when recording an outcome reports
  that the message was not found.  Here the update of message 1 affects no row:
  the error is logged, message 2 is still sent and recorded, the cycle commits and
  returns success, and the outcome of message 2 is in the table.
\<close>

theorem not_found_cycle_commits:
  "fst (ProcessUnsentMessages firstRowVanished 2 (worldOf [pendingRow 1 10, pendingRow 2 20])) = Inr ()
   \<and> logged (snd (ProcessUnsentMessages firstRowVanished 2 (worldOf [pendingRow 1 10, pendingRow 2 20])))
       = [(1, UpdateStatusFailed (NotFound 1))]
   \<and> calls (snd (ProcessUnsentMessages firstRowVanished 2 (worldOf [pendingRow 1 10, pendingRow 2 20])))
       = [CallBegin, CallQuery 2, CallSend ''+1234567890'' ''hello'', CallExec 1,
          CallSend ''+1234567890'' ''hello'', CallExec 2, CallCommit]
   \<and> table (snd (ProcessUnsentMessages firstRowVanished 2 (worldOf [pendingRow 1 10, pendingRow 2 20])))
       = [pendingRow 1 10,
          (pendingRow 2 20)\<lparr>pg_MessageID := Some ''ref'', pg_ProcessedAt := Some 101\<rparr>]"
  by (simp add: ProcessUnsentMessages_def BeginTx_def ListAndLockUnsent_def tx_Query_def
        Commit_def deferredRollback_def ToDomainSlice_def domainOf_def sendOrLog_def
        sendMessageWithTx_def SendMessage_def time_Now_def UpdateWithTx_def tx_Exec_def
        logCall_def claimable_def Let_def firstRowVanished_def calmEnv_def worldOf_def
        pendingRow_def)

text \<open>
  Claim C2, amended: when recording the outcome of a claimed message reports that
  it was not found, the cycle logs the error and goes on; it commits and returns
  success, the row of that message is unchanged, and any other message of the
  batch that is delivered and recorded ends completed.
\<close>

theorem not_found_logged_not_fatal:
  fixes w :: World and n :: go_int and k :: nat and j :: nat
  assumes "\<not> beginFails env" "queryFault env = QueryOk" "0 \<le> sint n" "\<not> commitFails env"
    and "distinct (map pg_ID (table w))"
    and "k < length (claimedBatch w n)" "j < length (claimedBatch w n)"
    and "webhook env (sends w + k) (pg_PhoneNumber (claimedBatch w n ! k))
           (pg_Content (claimedBatch w n ! k)) = Inr refk"
    and "execFault env (pg_ID (claimedBatch w n ! k)) = ExecNoRow"
    and "webhook env (sends w + j) (pg_PhoneNumber (claimedBatch w n ! j))
           (pg_Content (claimedBatch w n ! j)) = Inr refj"
    and "execFault env (pg_ID (claimedBatch w n ! j)) = ExecOk"
  shows "(pg_ID (claimedBatch w n ! k), UpdateStatusFailed (NotFound (pg_ID (claimedBatch w n ! k))))
           \<in> set (logged (snd (ProcessUnsentMessages env n w)))
       \<and> fst (ProcessUnsentMessages env n w) = Inr ()
       \<and> (\<exists>cs. calls (snd (ProcessUnsentMessages env n w))
                  = calls w @ [CallBegin, CallQuery n] @ cs @ [CallCommit]
                \<and> list_all isSendOrExec cs)
       \<and> rowById (pg_ID (claimedBatch w n ! k)) (table (snd (ProcessUnsentMessages env n w)))
           = Some (claimedBatch w n ! k)
       \<and> (\<exists>t. rowById (pg_ID (claimedBatch w n ! j)) (table (snd (ProcessUnsentMessages env n w)))
                = Some ((claimedBatch w n ! j)\<lparr>pg_MessageID := Some refj, pg_ProcessedAt := Some t\<rparr>))"
proof -
  note ok = assms(1-4)
  have nok: "execFault env (pg_ID (claimedBatch w n ! k)) \<noteq> ExecOk"
    using assms(9) by simp
  show ?thesis
    using cycle_logged[OF ok assms(6,8,9)] cycle_committed(1,4)[OF ok, of w]
      cycle_row(2)[OF ok assms(5,6) nok] cycle_row(3)[OF ok assms(5,7,10,11)]
    by simp
qed

lemma vanished_setup:
  "\<not> beginFails firstRowVanished" "queryFault firstRowVanished = QueryOk"
  "\<not> commitFails firstRowVanished"
  "execFault firstRowVanished 1 = ExecNoRow" "execFault firstRowVanished 2 = ExecOk"
  "webhook firstRowVanished k p c = Inr ''ref''"
  "claimedBatch (worldOf [pendingRow 1 10, pendingRow 2 20]) 2 = [pendingRow 1 10, pendingRow 2 20]"
  by (simp_all add: firstRowVanished_def calmEnv_def claimedBatch_def claimable_def worldOf_def
        pendingRow_def)

text \<open>
  The amended claim on the batch of two above.
\<close>

theorem not_found_logged_not_fatal_witness:
  "(1, UpdateStatusFailed (NotFound 1))
      \<in> set (logged (snd (ProcessUnsentMessages firstRowVanished 2
                (worldOf [pendingRow 1 10, pendingRow 2 20]))))
   \<and> fst (ProcessUnsentMessages firstRowVanished 2 (worldOf [pendingRow 1 10, pendingRow 2 20])) = Inr ()
   \<and> rowById 1 (table (snd (ProcessUnsentMessages firstRowVanished 2
        (worldOf [pendingRow 1 10, pendingRow 2 20])))) = Some (pendingRow 1 10)
   \<and> (\<exists>t. rowById 2 (table (snd (ProcessUnsentMessages firstRowVanished 2
        (worldOf [pendingRow 1 10, pendingRow 2 20]))))
          = Some ((pendingRow 2 20)\<lparr>pg_MessageID := Some ''ref'', pg_ProcessedAt := Some t\<rparr>))"
proof -
  let ?w = "worldOf [pendingRow 1 10, pendingRow 2 20]"
  have n: "0 \<le> sint (2 :: go_int)" by simp
  have d: "distinct (map pg_ID (table ?w))" by (simp add: worldOf_def pendingRow_def)
  have k: "0 < length (claimedBatch ?w 2)" and j: "1 < length (claimedBatch ?w 2)"
    by (simp_all add: vanished_setup(7))
  have ek: "execFault firstRowVanished (pg_ID (claimedBatch ?w 2 ! 0)) = ExecNoRow"
    and ej: "execFault firstRowVanished (pg_ID (claimedBatch ?w 2 ! 1)) = ExecOk"
    unfolding vanished_setup(7) by (simp_all add: pendingRow_def vanished_setup(4,5))
  from not_found_logged_not_fatal [OF vanished_setup(1,2) n vanished_setup(3) d k j
      vanished_setup(6) ek vanished_setup(6) ej]
  show ?thesis
    by (simp add: vanished_setup(7)) (simp add: pendingRow_def)
qed


subsection \<open>The claim\<close>

lemma take_sorted_prefix:
  fixes f :: "'a \<Rightarrow> int"
  assumes "sorted (map f ys)"
  shows "sorted (map f (take k ys))"
    and "r \<in> set ys \<Longrightarrow> r \<notin> set (take k ys) \<Longrightarrow>
           length (take k ys) = k \<and> (\<forall>r' \<in> set (take k ys). f r' \<le> f r)"
proof -
  have s: "sorted (map f (take k ys) @ map f (drop k ys))"
    using assms by (simp flip: map_append)
  then show "sorted (map f (take k ys))"
    by (simp add: sorted_append)
  assume r: "r \<in> set ys" "r \<notin> set (take k ys)"
  have "set ys = set (take k ys) \<union> set (drop k ys)"
    by (simp flip: set_append)
  with r have rd: "r \<in> set (drop k ys)" by blast
  then have "k < length ys" by (cases "k < length ys") auto
  moreover have "\<forall>r' \<in> set (take k ys). f r' \<le> f r"
    using s rd by (auto simp: sorted_append)
  ultimately show "length (take k ys) = k \<and> (\<forall>r' \<in> set (take k ys). f r' \<le> f r)"
    by simp
qed

lemma claim_returns:
  assumes "ListAndLockUnsent env limit w = (Inr rows, w')"
  shows "rows = take (nat (sint limit)) (claimable w (viewOf w))"
    and "set (map pg_ID rows) \<subseteq> set (lockedRows w')"
    and "table w' = table w"
  using assms
  by (auto simp: ListAndLockUnsent_def tx_Query_def viewOf_def lockedRows_def logCall_def Let_def
      split: option.splits if_splits prod.splits sum.splits)

lemma claim_characterised:
  assumes "ListAndLockUnsent env limit w = (Inr rows, w')"
  shows "sorted (map pg_CreatedAt rows) \<and> length rows \<le> nat (sint limit)
       \<and> (\<forall>r \<in> set rows. pg_ProcessedAt r = None \<and> r \<in> set (viewOf w) \<and> pg_ID r \<notin> set (others w))
       \<and> (\<forall>r \<in> set (viewOf w).
             pg_ProcessedAt r = None \<and> pg_ID r \<notin> set (others w) \<and> r \<notin> set rows \<longrightarrow>
               length rows = nat (sint limit) \<and> (\<forall>r' \<in> set rows. pg_CreatedAt r' \<le> pg_CreatedAt r))
       \<and> set (map pg_ID rows) \<subseteq> set (lockedRows w')"
proof -
  let ?ys = "claimable w (viewOf w)"
  let ?k = "nat (sint limit)"
  have rows: "rows = take ?k ?ys" using claim_returns(1)[OF assms] .
  have srt: "sorted (map pg_CreatedAt ?ys)" by (simp add: claimable_def)
  have mem: "set ?ys = {r \<in> set (viewOf w). pg_ProcessedAt r = None \<and> pg_ID r \<notin> set (others w)}"
    by (auto simp: claimable_def)
  have sub: "set rows \<subseteq> set ?ys" unfolding rows by (rule set_take_subset)
  have "sorted (map pg_CreatedAt rows)"
    unfolding rows using take_sorted_prefix(1)[OF srt] .
  moreover have "length rows \<le> ?k" unfolding rows by simp
  moreover have "\<forall>r \<in> set rows. pg_ProcessedAt r = None \<and> r \<in> set (viewOf w) \<and> pg_ID r \<notin> set (others w)"
    using sub mem by auto
  moreover have "\<forall>r \<in> set (viewOf w).
             pg_ProcessedAt r = None \<and> pg_ID r \<notin> set (others w) \<and> r \<notin> set rows \<longrightarrow>
               length rows = ?k \<and> (\<forall>r' \<in> set rows. pg_CreatedAt r' \<le> pg_CreatedAt r)"
    using take_sorted_prefix(2)[OF srt, of _ ?k] mem unfolding rows by blast
  moreover have "set (map pg_ID rows) \<subseteq> set (lockedRows w')"
    using claim_returns(2)[OF assms] .
  ultimately show ?thesis by blast
qed

lemma sort_three:
  fixes f :: "'a \<Rightarrow> int"
  assumes "mset xs = {#a, b, c#}" "f a < f b" "f b < f c"
  shows "sort_key f xs = [a, b, c]"
proof (rule properties_for_sort_key)
  show "mset [a, b, c] = mset xs" using assms(1) by simp
  show "sorted (map f [a, b, c])" using assms(2,3) by simp
  fix k assume "k \<in> set [a, b, c]"
  have ac: "f a < f c" using assms(2,3) by simp
  have "mset (filter (\<lambda>x. f k = f x) xs) = filter_mset (\<lambda>x. f k = f x) {#a, b, c#}"
    by (simp add: assms(1))
  also have "\<dots> = {#k#}"
    using \<open>k \<in> set [a, b, c]\<close> assms(2,3) ac by auto
  finally have "filter (\<lambda>x. f k = f x) xs = [k]" by (simp only: mset_single_iff)
  moreover have "filter (\<lambda>x. f k = f x) [a, b, c] = [k]"
    using \<open>k \<in> set [a, b, c]\<close> assms(2,3) by auto
  ultimately show "filter (\<lambda>x. f k = f x) [a, b, c] = filter (\<lambda>x. f k = f x) xs" by simp
qed

lemma claim_three:
  assumes "tx w = Some t" "queryFault env = QueryOk"
    and "mset (view t) = {#a, b, c#}"
    and "\<forall>r \<in> {a, b, c}. pg_ProcessedAt r = None \<and> pg_ID r \<notin> set (others w)"
    and "pg_CreatedAt a < pg_CreatedAt b" "pg_CreatedAt b < pg_CreatedAt c"
  shows "fst (ListAndLockUnsent env 2 w) = Inr [a, b]"
proof -
  have "set (view t) = set_mset (mset (view t))" by simp
  also have "\<dots> = {a, b, c}" by (simp only: assms(3)) auto
  finally have "set (view t) = {a, b, c}" .
  then have "filter (\<lambda>r. pg_ProcessedAt r = None \<and> pg_ID r \<notin> set (others w)) (view t) = view t"
    using assms(4) by (simp add: filter_id_conv)
  then have "claimable w (view t) = [a, b, c]"
    using sort_three[OF assms(3,5,6)] by (simp add: claimable_def)
  then show ?thesis
    using assms(1,2) by (simp add: ListAndLockUnsent_def tx_Query_def Let_def)
qed


text \<open>
  Claim C8: the rows a claim returns are in order of creation, at most as many as
  the limit, all pending, and reserved by the transaction; a pending row that is
  passed over (and that no other transaction holds) is no older than any row
  returned, and then the batch is full.  In particular, with three pending rows
  created at three increasing instants, in whatever order the table holds them,
  a claim with limit 2 returns the first two in that order.
\<close>

theorem claim_oldest_first:
  "(ListAndLockUnsent env limit w = (Inr rows, w') \<longrightarrow>
      sorted (map pg_CreatedAt rows) \<and> length rows \<le> nat (sint limit)
      \<and> (\<forall>r \<in> set rows. pg_ProcessedAt r = None \<and> r \<in> set (viewOf w) \<and> pg_ID r \<notin> set (others w))
      \<and> (\<forall>r \<in> set (viewOf w).
            pg_ProcessedAt r = None \<and> pg_ID r \<notin> set (others w) \<and> r \<notin> set rows \<longrightarrow>
              length rows = nat (sint limit) \<and> (\<forall>r' \<in> set rows. pg_CreatedAt r' \<le> pg_CreatedAt r))
      \<and> set (map pg_ID rows) \<subseteq> set (lockedRows w'))
   \<and> (tx w = Some t \<and> queryFault env = QueryOk \<and> mset (view t) = {#a, b, c#}
        \<and> (\<forall>r \<in> {a, b, c}. pg_ProcessedAt r = None \<and> pg_ID r \<notin> set (others w))
        \<and> pg_CreatedAt a < pg_CreatedAt b \<and> pg_CreatedAt b < pg_CreatedAt c \<longrightarrow>
          fst (ListAndLockUnsent env 2 w) = Inr [a, b])"
  using claim_characterised [of env limit w rows w'] claim_three [of w t env a b c]
  by blast

lemma three_rows_run:
  "ListAndLockUnsent calmEnv 2
     (snd (BeginTx calmEnv (worldOf [pendingRow 3 30, pendingRow 1 10, pendingRow 2 20])))
   = (Inr [pendingRow 1 10, pendingRow 2 20],
      snd (ListAndLockUnsent calmEnv 2
        (snd (BeginTx calmEnv (worldOf [pendingRow 3 30, pendingRow 1 10, pendingRow 2 20])))))"
  by (simp add: ListAndLockUnsent_def tx_Query_def BeginTx_def logCall_def claimable_def Let_def
        calmEnv_def worldOf_def pendingRow_def)

text \<open>
  Three pending rows stored newest first: the claim with limit 2 returns the rows
  created at 10 and 20, not the one created at 30.
\<close>

theorem claim_oldest_first_witness:
  "fst (ListAndLockUnsent calmEnv 2
     (snd (BeginTx calmEnv (worldOf [pendingRow 3 30, pendingRow 1 10, pendingRow 2 20]))))
     = Inr [pendingRow 1 10, pendingRow 2 20]
   \<and> sorted (map pg_CreatedAt [pendingRow 1 10, pendingRow 2 20])
   \<and> pg_ProcessedAt (pendingRow 1 10) = None \<and> pg_ProcessedAt (pendingRow 2 20) = None
   \<and> pg_ID (pendingRow 1 10) \<in> set (lockedRows (snd (ListAndLockUnsent calmEnv 2
        (snd (BeginTx calmEnv (worldOf [pendingRow 3 30, pendingRow 1 10, pendingRow 2 20]))))))
   \<and> pg_ID (pendingRow 2 20) \<in> set (lockedRows (snd (ListAndLockUnsent calmEnv 2
        (snd (BeginTx calmEnv (worldOf [pendingRow 3 30, pendingRow 1 10, pendingRow 2 20]))))))"
proof -
  let ?w = "snd (BeginTx calmEnv (worldOf [pendingRow 3 30, pendingRow 1 10, pendingRow 2 20]))"
  from claim_oldest_first [of calmEnv 2 ?w "[pendingRow 1 10, pendingRow 2 20]"
      "snd (ListAndLockUnsent calmEnv 2 ?w)"]
  have "ListAndLockUnsent calmEnv 2 ?w
          = (Inr [pendingRow 1 10, pendingRow 2 20], snd (ListAndLockUnsent calmEnv 2 ?w)) \<longrightarrow>
      sorted (map pg_CreatedAt [pendingRow 1 10, pendingRow 2 20])
      \<and> (\<forall>r \<in> set [pendingRow 1 10, pendingRow 2 20]. pg_ProcessedAt r = None)
      \<and> set (map pg_ID [pendingRow 1 10, pendingRow 2 20])
           \<subseteq> set (lockedRows (snd (ListAndLockUnsent calmEnv 2 ?w)))"
    by blast
  with three_rows_run have
    "sorted (map pg_CreatedAt [pendingRow 1 10, pendingRow 2 20])
      \<and> (\<forall>r \<in> set [pendingRow 1 10, pendingRow 2 20]. pg_ProcessedAt r = None)
      \<and> set (map pg_ID [pendingRow 1 10, pendingRow 2 20])
           \<subseteq> set (lockedRows (snd (ListAndLockUnsent calmEnv 2 ?w)))"
    by blast
  moreover have "fst (ListAndLockUnsent calmEnv 2 ?w) = Inr [pendingRow 1 10, pendingRow 2 20]"
    using three_rows_run by (metis fst_conv)
  ultimately show ?thesis by simp
qed


section \<open>The scheduler\<close>

lemma filter_update_count:
  "i < length xs \<Longrightarrow>
     length (filter P (xs[i := y])) + (if P (xs ! i) then 1 else 0)
       = length (filter P xs) + (if P y then 1 else 0)"
proof (induction xs arbitrary: i)
  case Nil
  then show ?case by simp
next
  case (Cons x xs)
  then show ?case by (cases i) auto
qed

lemma weight_update:
  "i < length xs \<Longrightarrow>
     sum_list (map weight (xs[i := y])) + weight (xs ! i) = sum_list (map weight xs) + weight y"
proof (induction xs arbitrary: i)
  case Nil
  then show ?case by simp
next
  case (Cons x xs)
  then show ?case by (cases i) auto
qed

lemma inv_loopStep:
  assumes "sched_inv c" "loopStep e c = Some c'"
  shows "sched_inv c'"
proof (cases e)
  case (EvTryLock i)
  with assms(2) have i: "i < length (loops c)" "loops c ! i = AtProcessTask"
    by (auto split: if_splits)
  from filter_update_count[OF i(1), of "\<lambda>p. p \<noteq> Exited" AtSelect]
       filter_update_count[OF i(1), of "\<lambda>p. p \<noteq> Exited" InTask]
       filter_update_count[OF i(1), of "\<lambda>p. p = InTask" AtSelect]
       filter_update_count[OF i(1), of "\<lambda>p. p = InTask" InTask]
  show ?thesis
    using assms EvTryLock i
    by (auto simp: sched_inv_def live_def executing_def split: if_splits)
next
  case (EvTaskReturn i)
  with assms(2) have i: "i < length (loops c)" "loops c ! i = InTask"
    by (auto split: if_splits)
  have "InTask \<in> set (loops c)" using i by (metis nth_mem)
  then have "executing c \<noteq> 0" by (auto simp: executing_def filter_empty_conv)
  with assms(1) have run: "taskRunning c" "executing c = 1"
    by (auto simp: sched_inv_def split: if_splits)
  from filter_update_count[OF i(1), of "\<lambda>p. p \<noteq> Exited" AtSelect]
       filter_update_count[OF i(1), of "\<lambda>p. p = InTask" AtSelect]
  show ?thesis
    using assms EvTaskReturn i run
    by (auto simp: sched_inv_def live_def executing_def split: if_splits)
next
  case EvFire
  with assms show ?thesis
    by (auto simp: sched_inv_def live_def executing_def split: if_splits)
next
  case (EvTick i)
  with assms(2) have i: "i < length (loops c)" "loops c ! i = AtSelect"
    by (auto split: if_splits)
  from filter_update_count[OF i(1), of "\<lambda>p. p \<noteq> Exited" AtProcessTask]
       filter_update_count[OF i(1), of "\<lambda>p. p = InTask" AtProcessTask]
  show ?thesis
    using assms EvTick i
    by (auto simp: sched_inv_def live_def executing_def split: if_splits)
next
  case (EvDone i)
  with assms(2) have i: "i < length (loops c)" "loops c ! i = AtSelect"
    by (auto split: if_splits)
  from filter_update_count[OF i(1), of "\<lambda>p. p \<noteq> Exited" Exited]
       filter_update_count[OF i(1), of "\<lambda>p. p = InTask" Exited]
  show ?thesis
    using assms EvDone i
    by (auto simp: sched_inv_def live_def executing_def split: if_splits)
qed

lemma inv_Start: "sched_inv c \<Longrightarrow> sched_inv (snd (Start tk m c))"
  by (auto simp: sched_inv_def Start_def live_def executing_def Let_def)

lemma inv_stopSignal: "sched_inv c \<Longrightarrow> sched_inv (stopSignal c)"
  by (auto simp: sched_inv_def stopSignal_def live_def executing_def)

lemma inv_Run: "sched_inv Run"
  by (simp add: sched_inv_def Run_def live_def executing_def)

lemma inv_runLoops: "runLoops es c = Some c' \<Longrightarrow> sched_inv c \<Longrightarrow> sched_inv c'"
  by (induction es arbitrary: c) (auto split: option.splits dest: inv_loopStep)

lemma inv_runOps: "runOps ops c = Some c' \<Longrightarrow> sched_inv c \<Longrightarrow> sched_inv c'"
proof (induction ops c rule: runOps.induct)
  case (1 c)
  then show ?case by simp
next
  case (2 tk m ops c)
  then show ?case by (simp add: inv_Start)
next
  case (3 ops c)
  then show ?case by (simp add: inv_stopSignal)
next
  case (4 e ops c)
  then show ?case by (auto split: option.splits dest: inv_loopStep)
qed

text \<open>
  At most one loop is inside the task in every state a client can reach; and a
  loop that enters \<^verbatim>\<open>processTask\<close> while a task is running returns at once to its
  \<^verbatim>\<open>select\<close>, nothing else being changed.
\<close>

lemma at_most_one_in_task:
  assumes "runOps ops Run = Some c"
  shows "executing c \<le> 1
       \<and> (\<forall>i<length (loops c). loops c ! i = AtProcessTask \<and> executing c = 1 \<longrightarrow>
            loopStep (EvTryLock i) c = Some (c\<lparr>loops := (loops c)[i := AtSelect]\<rparr>))"
  using inv_runOps[OF assms inv_Run]
  by (auto simp: sched_inv_def split: if_splits)

text \<open>
  With one loop, which is what a client started once has, the guard never takes
  its skipping branch: when the loop is about to enter \<^verbatim>\<open>processTask\<close> no task is
  running.
\<close>

lemma single_loop_never_skips:
  assumes "runOps ops Run = Some c" "loops c = [AtProcessTask]"
  shows "\<not> taskRunning c"
  using inv_runOps[OF assms(1) inv_Run] assms(2)
  by (auto simp: sched_inv_def executing_def split: if_splits)

text \<open>
  Claim C6 asks that a tick arriving while the task is still executing be skipped
  entirely, with no invocation queued or run later for it.  The guard of
  \<^verbatim>\<open>processTask\<close> is there for this (its branch logs that the tick is skipped
  because the previous task is still running), but the loop calls \<^verbatim>\<open>processTask\<close>
  itself and reads the ticker only between two calls.  On the one loop of a started
  client: the task begins, the ticker fires twice while it runs, the first tick
  stays in the channel and the second is dropped; when the task has returned the
  loop receives the tick that was kept and begins a second invocation for it.
\<close>

theorem tick_during_task_runs_late:
  "map_option observed
     (runLoops [EvTryLock 0, EvFire, EvFire] (snd (Start ProcessUnsent 2 Run)))
     = Some ([InTask], True, 1)
   \<and> map_option observed
     (runLoops [EvTryLock 0, EvFire, EvFire, EvTaskReturn 0] (snd (Start ProcessUnsent 2 Run)))
     = Some ([AtSelect], True, 1)
   \<and> map_option observed
     (runLoops [EvTryLock 0, EvFire, EvFire, EvTaskReturn 0, EvTick 0, EvTryLock 0]
        (snd (Start ProcessUnsent 2 Run)))
     = Some ([InTask], False, 2)"
  by (simp add: observed_def Start_def Run_def Minute_def Let_def)

lemma runLoops_append:
  "runLoops (xs @ ys) c = (case runLoops xs c of None \<Rightarrow> None | Some c' \<Rightarrow> runLoops ys c')"
  by (induction xs arbitrary: c) (auto split: option.splits)

lemma positive_summand:
  "0 < sum_list (map f xs) \<Longrightarrow> \<exists>x \<in> set xs. 0 < (f x :: nat)"
  by (induction xs) auto

lemma progress:
  assumes "sched_inv c" "ctx c = Some True" "remaining c > 0"
  shows "\<exists>e c'. loopStep e c = Some c' \<and> remaining c' < remaining c \<and> ctx c' = Some True"
proof -
  from assms(3) obtain p where "p \<in> set (loops c)" "weight p > 0"
    unfolding remaining_def using positive_summand by blast
  then obtain i where i: "i < length (loops c)" "weight (loops c ! i) > 0"
    by (auto simp: in_set_conv_nth)
  show ?thesis
  proof (cases "loops c ! i")
    case AtProcessTask
    show ?thesis
    proof (cases "taskRunning c")
      case True
      with i AtProcessTask weight_update[OF i(1), of AtSelect] assms(2)
      show ?thesis
        by (intro exI[of _ "EvTryLock i"]) (auto simp: remaining_def)
    next
      case False
      with i AtProcessTask weight_update[OF i(1), of InTask] assms(2)
      show ?thesis
        by (intro exI[of _ "EvTryLock i"]) (auto simp: remaining_def)
    qed
  next
    case InTask
    with i weight_update[OF i(1), of AtSelect] assms(2)
    show ?thesis
      by (intro exI[of _ "EvTaskReturn i"]) (auto simp: remaining_def)
  next
    case AtSelect
    with i weight_update[OF i(1), of Exited] assms(2)
    show ?thesis
      by (intro exI[of _ "EvDone i"]) (auto simp: remaining_def)
  next
    case Exited
    with i show ?thesis by simp
  qed
qed

lemma drained:
  assumes "sched_inv c" "remaining c = 0"
  shows "wg c = 0"
proof -
  have "\<forall>p \<in> set (loops c). weight p = 0"
    using assms(2) by (auto simp: remaining_def)
  then have "\<forall>p \<in> set (loops c). p = Exited"
    by (metis weight.elims zero_neq_numeral zero_neq_one)
  then have "live c = 0"
    by (auto simp: live_def filter_empty_conv)
  with assms(1) show ?thesis by (simp add: sched_inv_def)
qed

lemma drain_exists:
  assumes "sched_inv c" "loops c \<noteq> [] \<longrightarrow> ctx c = Some True"
  shows "\<exists>sched c'. runLoops sched c = Some c' \<and> wg c' = 0"
  using assms
proof (induction "remaining c" arbitrary: c rule: less_induct)
  case less
  show ?case
  proof (cases "remaining c = 0")
    case True
    with less.prems drained have "wg c = 0" by blast
    then have "runLoops [] c = Some c \<and> wg c = 0" by simp
    then show ?thesis by blast
  next
    case False
    then have "loops c \<noteq> []" by (auto simp: remaining_def)
    with less.prems have cx: "ctx c = Some True" by simp
    from progress[OF less.prems(1) cx] False
    obtain e c1 where st: "loopStep e c = Some c1" "remaining c1 < remaining c" "ctx c1 = Some True"
      by auto
    have "sched_inv c1" using inv_loopStep[OF less.prems(1) st(1)] .
    from less.hyps[OF st(2) this] st(3)
    obtain sched c' where "runLoops sched c1 = Some c'" "wg c' = 0" by auto
    with st(1) have "runLoops (e # sched) c = Some c' \<and> wg c' = 0" by simp
    then show ?thesis by blast
  qed
qed

lemma Stop_returns:
  assumes "sched_inv c"
  shows "\<exists>sched c'. Stop sched c = Some c'"
proof -
  have "sched_inv (stopSignal c)" using assms by (rule inv_stopSignal)
  moreover have "loops (stopSignal c) \<noteq> [] \<longrightarrow> ctx (stopSignal c) = Some True"
    using assms by (auto simp: sched_inv_def stopSignal_def)
  ultimately obtain sched c' where "runLoops sched (stopSignal c) = Some c'" "wg c' = 0"
    using drain_exists by blast
  then have "Stop sched c = Some c'" by (simp add: Stop_def)
  then show ?thesis by blast
qed

lemma Stop_stopped:
  assumes "sched_inv c" "Stop sched c = Some c'"
  shows "live c' = 0 \<and> sched_inv c'"
proof -
  from assms(2) have r: "runLoops sched (stopSignal c) = Some c'" "wg c' = 0"
    by (auto simp: Stop_def split: option.splits if_splits)
  have "sched_inv c'" using inv_runLoops[OF r(1) inv_stopSignal[OF assms(1)]] .
  with r(2) show ?thesis by (simp add: sched_inv_def)
qed

lemma Start_live:
  "live (snd (Start tk m c)) = (if fst (Start tk m c) = Inr () then Suc (live c) else live c)"
  by (simp add: Start_def live_def Let_def)

text \<open>
  A call of \<^verbatim>\<open>StartScheduler\<close> that no other call interrupts: on every client that can
  arise it can return; when it returns, its \<^verbatim>\<open>Stop\<close> has returned in a state with no
  live loop, the new parameters are stored, and exactly one loop is alive
  afterwards (none when the new interval is refused).
\<close>

lemma restart_alone_one_loop:
  assumes "runOps ops Run = Some (scheduler s)"
  shows "(\<exists>sched r s'. StartScheduler sched m b s = Some (r, s'))
       \<and> (\<forall>sched r s'. StartScheduler sched m b s = Some (r, s') \<longrightarrow>
            (\<exists>c1. Stop sched (scheduler s) = Some c1 \<and> live c1 = 0)
            \<and> live (scheduler s') = (if r = Inr () then 1 else 0)
            \<and> intervalMinutes s' = m \<and> messageBatchSize s' = b)"
proof -
  have inv: "sched_inv (scheduler s)" using inv_runOps[OF assms inv_Run] .
  from Stop_returns[OF inv] obtain sched c1 where "Stop sched (scheduler s) = Some c1" by blast
  then have "StartScheduler sched m b s
      = Some (fst (Start ProcessUnsent m c1),
              s\<lparr>scheduler := snd (Start ProcessUnsent m c1), intervalMinutes := m,
                messageBatchSize := b\<rparr>)"
    by (simp add: StartScheduler_def Let_def split_beta)
  then have ex: "\<exists>sched r s'. StartScheduler sched m b s = Some (r, s')"
    by blast
  have "\<And>sched r s'. StartScheduler sched m b s = Some (r, s') \<Longrightarrow>
            (\<exists>c1. Stop sched (scheduler s) = Some c1 \<and> live c1 = 0)
            \<and> live (scheduler s') = (if r = Inr () then 1 else 0)
            \<and> intervalMinutes s' = m \<and> messageBatchSize s' = b"
  proof -
    fix sched r s'
    assume a: "StartScheduler sched m b s = Some (r, s')"
    then obtain c1 where c1: "Stop sched (scheduler s) = Some c1"
      by (auto simp: StartScheduler_def split: option.splits)
    from Stop_stopped[OF inv c1] have l0: "live c1 = 0" by simp
    from a c1 have rs: "r = fst (Start ProcessUnsent m c1)"
        "scheduler s' = snd (Start ProcessUnsent m c1)"
        "intervalMinutes s' = m" "messageBatchSize s' = b"
      by (auto simp: StartScheduler_def Let_def split: prod.splits)
    show "(\<exists>c1. Stop sched (scheduler s) = Some c1 \<and> live c1 = 0)
            \<and> live (scheduler s') = (if r = Inr () then 1 else 0)
            \<and> intervalMinutes s' = m \<and> messageBatchSize s' = b"
      using c1 l0 rs Start_live[of ProcessUnsent m c1] by auto
  qed
  with ex show ?thesis by blast
qed


lemma StartScheduler_parts:
  "StartScheduler sched m b s = map_option (restartStart m b) (restartStop sched s)"
  by (cases "Stop sched (scheduler s)")
     (simp_all add: StartScheduler_def restartStart_def restartStop_def Let_def split_beta)

text \<open>
  \<^verbatim>\<open>Client.Start\<close> does not stop a loop that runs: called on a client whose loop is
  alive it launches a second loop beside it.
\<close>

lemma start_on_running_adds_loop:
  "live (snd (Start ProcessUnsent 2 Run)) = 1
   \<and> loops (snd (Start ProcessUnsent 5 (snd (Start ProcessUnsent 2 Run))))
       = [AtProcessTask, AtProcessTask]
   \<and> live (snd (Start ProcessUnsent 5 (snd (Start ProcessUnsent 2 Run)))) = 2"
  by (simp add: Start_def Run_def Minute_def live_def Let_def)

text \<open>
  Claim C3 asks that a start on a running trigger pass through the stopped state
  first, so that two loops of one trigger never run side by side.
  \<^verbatim>\<open>StartScheduler\<close> stops the trigger before it starts it again, but holds no lock
  from its \<^verbatim>\<open>Stop\<close> to its \<^verbatim>\<open>Start\<close>.  Two calls with the parameters of the request
  handler, made on the running service so that both stops return before either
  start: the first stop ends the one loop, the second finds nothing to wait for,
  and each start launches a loop, so two loops are alive.
\<close>

theorem restart_race_two_loops:
  "map_option liveLoops
     (restartStop [EvTryLock 0, EvTaskReturn 0, EvDone 0] runningService) = Some 0
   \<and> map_option liveLoops
     (restartRace [EvTryLock 0, EvTaskReturn 0, EvDone 0] [] 2 2 runningService) = Some 2
   \<and> map_option scheduler
     (restartRace [EvTryLock 0, EvTaskReturn 0, EvDone 0] [] 2 2 runningService)
     = Some \<lparr>task = Some ProcessUnsent, interval = 2 * Minute, ticker = Some True,
             tickPending = False, ctx = Some False, wg = 2, taskRunning = False,
             loops = [Exited, AtProcessTask, AtProcessTask], started = 1\<rparr>"
  by (simp add: liveLoops_def restartRace_def restartStop_def restartStart_def Stop_def
        stopSignal_def runningService_def Start_def Run_def Minute_def live_def Let_def)

end
